theory Spec2Isabelle
  imports Main "HOL-Library.Word"
begin

unbundle bit_operations_syntax

section \<open>Machine types and memory\<close>

type_synonym u8 = "8 word"
type_synonym u16 = "16 word"
type_synonym u32 = "32 word"

text \<open>
  A pointer into the frame buffer is modelled as its byte offset from
  \<^verbatim>\<open>frame_buffer\<close>. The allocation is the list of its bytes. A
  \<^verbatim>\<open>memcpy\<close> that leaves the allocation is undefined behaviour in C++; the model
  returns the fault \<open>OutOfBounds\<close> there instead of a state.
\<close>

datatype fault = OutOfBounds

text \<open>\<^verbatim>\<open>memcpy(buf + off, src, |src|)\<close> with \<open>buf\<close> the allocation.\<close>

definition memcpy_to :: "u8 list \<Rightarrow> nat \<Rightarrow> u8 list \<Rightarrow> fault + u8 list" where
  "memcpy_to buf off src =
     (if off + length src \<le> length buf
      then Inr (take off buf @ src @ drop (off + length src) buf)
      else Inl OutOfBounds)"

text \<open>\<^verbatim>\<open>memcpy(dst, buf + off, n)\<close> with \<open>buf\<close> the allocation: the bytes read.\<close>

definition memcpy_from :: "u8 list \<Rightarrow> nat \<Rightarrow> nat \<Rightarrow> fault + u8 list" where
  "memcpy_from buf off n =
     (if off + n \<le> length buf then Inr (take n (drop off buf)) else Inl OutOfBounds)"

section \<open>FrameQueue\<close>

text \<open>
  The fields of \<^verbatim>\<open>class FrameQueue\<close> (ps3eye.cpp, lines 753-763). The mutex and the
  condition variable carry no data. The field \<^verbatim>\<open>frame_size\<close> is named
  \<open>fq_frame_size\<close> here, since \<^verbatim>\<open>URBDesc\<close> has a field of the same name.
\<close>

record FrameQueue =
  fq_frame_size :: u32
  num_frames :: u32
  frame_buffer :: "u8 list"
  head :: u32
  tail :: u32
  available :: u32

text \<open>
  The constructor (lines 678-687). In a member initialiser the names
  \<^verbatim>\<open>frame_size\<close> and \<^verbatim>\<open>num_frames\<close> denote the constructor's parameters, which hide
  the members of the same name: the member \<^verbatim>\<open>num_frames\<close> is
  \<^verbatim>\<open>std::max(num_frames, 2u)\<close>, and the allocation is
  \<^verbatim>\<open>malloc(frame_size * num_frames)\<close> with the parameter \<^verbatim>\<open>num_frames\<close> as it was
  passed, the product taken in \<^verbatim>\<open>uint32_t\<close>. The bytes of a fresh allocation are
  indeterminate: \<open>junk\<close> gives them. The source does not test the result of
  \<^verbatim>\<open>malloc\<close>, and the model takes the allocation to succeed.
\<close>

definition FrameQueue_new :: "u32 \<Rightarrow> u32 \<Rightarrow> (nat \<Rightarrow> u8) \<Rightarrow> FrameQueue" where
  "FrameQueue_new frame_size_arg num_frames_arg junk =
     \<lparr> fq_frame_size = frame_size_arg,
       num_frames = max num_frames_arg 2,
       frame_buffer = map junk [0 ..< unat (frame_size_arg * num_frames_arg)],
       head = 0,
       tail = 0,
       available = 0 \<rparr>"

text \<open>\<^verbatim>\<open>GetFrameBufferStart\<close> (lines 694-697): offset 0 of the allocation.\<close>

definition GetFrameBufferStart :: "FrameQueue \<Rightarrow> nat" where
  "GetFrameBufferStart q = 0"

text \<open>
  \<^verbatim>\<open>Enqueue\<close> (lines 699-728): the returned pointer (as an offset) and the queue
  after the call. It touches no frame memory and never waits.
\<close>

definition Enqueue :: "FrameQueue \<Rightarrow> nat \<times> FrameQueue" where
  "Enqueue q =
     (if available q \<ge> num_frames q - 1
      then (unat (head q * fq_frame_size q), q)
      else
        let q' = q\<lparr> head := (head q + 1) mod num_frames q,
                    available := available q + 1 \<rparr>
        in (unat (head q' * fq_frame_size q'), q'))"

text \<open>
  \<^verbatim>\<open>Dequeue\<close> (lines 730-751). While \<^verbatim>\<open>available == 0\<close> the caller waits on the
  condition variable and the queue is left as it is: \<open>Blocks\<close>. Otherwise the
  slot at \<^verbatim>\<open>tail\<close> is copied out, which faults when the slot leaves the allocation.
\<close>

datatype 'a outcome = Blocks | Faults fault | Returns 'a

definition Dequeue :: "FrameQueue \<Rightarrow> (u8 list \<times> FrameQueue) outcome" where
  "Dequeue q =
     (if available q = 0 then Blocks
      else
        case memcpy_from (frame_buffer q) (unat (fq_frame_size q * tail q))
               (unat (fq_frame_size q)) of
          Inl e \<Rightarrow> Faults e
        | Inr new_frame \<Rightarrow>
            Returns (new_frame,
              q\<lparr> tail := (tail q + 1) mod num_frames q,
                 available := available q - 1 \<rparr>))"

text \<open>
  A history of the queue: the calls of the producer and of the consumer in the order in
  which they hold the mutex. A \<^verbatim>\<open>Dequeue\<close> that finds the queue empty waits and
  changes nothing; a fault ends the history.
\<close>

datatype fq_call = EnqueueCall | DequeueCall

fun fq_step :: "FrameQueue \<Rightarrow> fq_call \<Rightarrow> fault + FrameQueue" where
  "fq_step q EnqueueCall = Inr (snd (Enqueue q))"
| "fq_step q DequeueCall =
     (case Dequeue q of
        Blocks \<Rightarrow> Inr q
      | Faults e \<Rightarrow> Inl e
      | Returns (new_frame, q') \<Rightarrow> Inr q')"

fun fq_run :: "FrameQueue \<Rightarrow> fq_call list \<Rightarrow> fault + FrameQueue" where
  "fq_run q [] = Inr q"
| "fq_run q (c # cs) =
     (case fq_step q c of Inl e \<Rightarrow> Inl e | Inr q' \<Rightarrow> fq_run q' cs)"

text \<open>The pointers returned by a run of consecutive \<^verbatim>\<open>Enqueue\<close> calls, and the queue after them.\<close>

fun enqueue_times :: "nat \<Rightarrow> FrameQueue \<Rightarrow> nat list \<times> FrameQueue" where
  "enqueue_times 0 q = ([], q)"
| "enqueue_times (Suc n) q =
     (let (p, q') = Enqueue q; (ps, q'') = enqueue_times n q' in (p # ps, q''))"


text \<open>
  The ring invariant of the counters: \<^verbatim>\<open>head\<close> runs \<^verbatim>\<open>available\<close> slots ahead of
  \<^verbatim>\<open>tail\<close>, and at most \<^verbatim>\<open>num_frames - 1\<close> frames are unread.
\<close>

definition fq_inv :: "FrameQueue \<Rightarrow> bool" where
  "fq_inv q \<longleftrightarrow>
     2 \<le> unat (num_frames q) \<and>
     unat (head q) < unat (num_frames q) \<and>
     unat (tail q) < unat (num_frames q) \<and>
     unat (available q) + 1 \<le> unat (num_frames q) \<and>
     unat (head q) = (unat (tail q) + unat (available q)) mod unat (num_frames q)"

text \<open>The allocation holds all \<^verbatim>\<open>num_frames\<close> slots, and its size fits \<^verbatim>\<open>uint32_t\<close>.\<close>

definition fq_mem_ok :: "FrameQueue \<Rightarrow> bool" where
  "fq_mem_ok q \<longleftrightarrow>
     length (frame_buffer q) = unat (fq_frame_size q) * unat (num_frames q) \<and>
     unat (fq_frame_size q) * unat (num_frames q) < 2 ^ 32"

text \<open>Concrete inputs for the examples: memory that reads as zero, and a full queue of three slots.\<close>

definition zero_mem :: "nat \<Rightarrow> u8" where
  "zero_mem i = 0"

definition full_queue3 :: FrameQueue where
  "full_queue3 = snd (enqueue_times 2 (FrameQueue_new 4 3 zero_mem))"

section \<open>URBDesc: reassembly of frames from payload units\<close>

datatype gspca_packet_type = DISCARD_PACKET | FIRST_PACKET | INTER_PACKET | LAST_PACKET

definition UVC_STREAM_ERR :: u8 where "UVC_STREAM_ERR = push_bit 6 1"
definition UVC_STREAM_PTS :: u8 where "UVC_STREAM_PTS = push_bit 2 1"
definition UVC_STREAM_EOF :: u8 where "UVC_STREAM_EOF = push_bit 1 1"
definition UVC_STREAM_FID :: u8 where "UVC_STREAM_FID = push_bit 0 1"

text \<open>
  The reassembly fields of \<^verbatim>\<open>class URBDesc\<close> (lines 1006-1021) while transfers are
  active, that is between \<^verbatim>\<open>start_transfers\<close> and \<^verbatim>\<open>close_transfers\<close>, when
  \<^verbatim>\<open>frame_queue\<close> points to a live \<^verbatim>\<open>FrameQueue\<close> and \<^verbatim>\<open>cur_frame_start\<close> into
  its buffer (as an offset). The USB handles, the thread and the semaphore are left out.

  Two fields are not in the source and only record what happened: \<open>fa_log\<close> is the
  list of the \<^verbatim>\<open>packet_type\<close> arguments of the calls of \<^verbatim>\<open>frame_add\<close>, in order,
  and \<open>enqueue_calls\<close> counts the calls of \<^verbatim>\<open>frame_queue->Enqueue()\<close>. No
  other field depends on them.
\<close>

record URBDesc =
  last_packet_type :: gspca_packet_type
  last_pts :: u32
  last_fid :: u16
  cur_frame_start :: nat
  cur_frame_data_len :: u32
  frame_size :: u32
  frame_queue :: FrameQueue
  fa_log :: "gspca_packet_type list"
  enqueue_calls :: nat

text \<open>
  \<^verbatim>\<open>start_transfers\<close> (lines 795-836), its effect on the reassembly fields. It does
  not assign \<^verbatim>\<open>last_packet_type\<close>, which keeps the value \<open>prev_type\<close> it had:
  \<^verbatim>\<open>DISCARD_PACKET\<close> after the constructor (line 775).
\<close>

definition start_transfers :: "gspca_packet_type \<Rightarrow> u32 \<Rightarrow> u32 \<Rightarrow> (nat \<Rightarrow> u8) \<Rightarrow> URBDesc" where
  "start_transfers prev_type curr_frame_size frame_queue_size junk =
     (let q = FrameQueue_new curr_frame_size frame_queue_size junk in
      \<lparr> last_packet_type = prev_type,
        last_pts = 0,
        last_fid = 0,
        cur_frame_start = GetFrameBufferStart q,
        cur_frame_data_len = 0,
        frame_size = curr_frame_size,
        frame_queue = q,
        fa_log = [],
        enqueue_calls = 0 \<rparr>)"

text \<open>
  \<^verbatim>\<open>frame_add\<close>, second half (lines 911-930): append the packet to the frame buffer,
  record the packet type, and hand a finished frame to the queue. \<open>data\<close> is the
  list of the \<^verbatim>\<open>len\<close> bytes at \<^verbatim>\<open>data\<close>; the calls with \<^verbatim>\<open>NULL\<close> and length 0
  pass the empty list. The sum \<^verbatim>\<open>cur_frame_data_len + len\<close> is taken in
  \<^verbatim>\<open>uint32_t\<close>.
\<close>

definition frame_add_append :: "gspca_packet_type \<Rightarrow> u8 list \<Rightarrow> URBDesc \<Rightarrow> fault + URBDesc" where
  "frame_add_append packet_type data s =
     (case
        (if length data > 0 then
           (if cur_frame_data_len s + of_nat (length data) > frame_size s
            then Inr (DISCARD_PACKET, s\<lparr> cur_frame_data_len := 0 \<rparr>)
            else
              case memcpy_to (frame_buffer (frame_queue s))
                     (cur_frame_start s + unat (cur_frame_data_len s)) data of
                Inl e \<Rightarrow> Inl e
              | Inr buf \<Rightarrow>
                  Inr (packet_type,
                    s\<lparr> frame_queue := (frame_queue s)\<lparr> frame_buffer := buf \<rparr>,
                       cur_frame_data_len := cur_frame_data_len s + of_nat (length data) \<rparr>))
         else Inr (packet_type, s)) of
        Inl e \<Rightarrow> Inl e
      | Inr (packet_type', s1) \<Rightarrow>
          let s2 = s1\<lparr> last_packet_type := packet_type' \<rparr> in
          Inr (if packet_type' = LAST_PACKET
               then s2\<lparr> cur_frame_data_len := 0,
                        cur_frame_start := fst (Enqueue (frame_queue s2)),
                        frame_queue := snd (Enqueue (frame_queue s2)),
                        enqueue_calls := enqueue_calls s2 + 1 \<rparr>
               else s2))"

text \<open>\<^verbatim>\<open>frame_add\<close> (lines 888-931).\<close>

definition frame_add :: "gspca_packet_type \<Rightarrow> u8 list \<Rightarrow> URBDesc \<Rightarrow> fault + URBDesc" where
  "frame_add packet_type data s0 =
     (let s = s0\<lparr> fa_log := fa_log s0 @ [packet_type] \<rparr> in
      if packet_type = FIRST_PACKET
      then frame_add_append packet_type data (s\<lparr> cur_frame_data_len := 0 \<rparr>)
      else
        case last_packet_type s of
          DISCARD_PACKET \<Rightarrow>
            Inr (if packet_type = LAST_PACKET
                 then s\<lparr> last_packet_type := packet_type, cur_frame_data_len := 0 \<rparr>
                 else s)
        | LAST_PACKET \<Rightarrow> Inr s
        | _ \<Rightarrow> frame_add_append packet_type data s)"

text \<open>
  The timestamp and the frame id of a payload header (lines 967-968). Each byte is
  promoted before it is shifted; the result is read as \<^verbatim>\<open>uint32_t\<close>.
\<close>

definition this_pts :: "u8 list \<Rightarrow> u32" where
  "this_pts data =
     push_bit 24 (ucast (data ! 5)) OR push_bit 16 (ucast (data ! 4))
       OR push_bit 8 (ucast (data ! 3)) OR ucast (data ! 2)"

definition this_fid :: "u8 list \<Rightarrow> u16" where
  "this_fid data = (if data ! 1 AND UVC_STREAM_FID \<noteq> 0 then 1 else 0)"

text \<open>
  One turn of the loop of \<^verbatim>\<open>pkt_scan\<close> (lines 942-999) on the \<^verbatim>\<open>len\<close> bytes
  \<open>data\<close> of one payload. The source tests \<^verbatim>\<open>data[0] != 12 || len < 12\<close>;
  \<^verbatim>\<open>data[0]\<close> is a byte of the transfer buffer also when \<^verbatim>\<open>len\<close> is 0, so
  the two tests commute, and the model tests the length first.
\<close>

definition pkt_scan_payload :: "u8 list \<Rightarrow> URBDesc \<Rightarrow> fault + URBDesc" where
  "pkt_scan_payload data s =
     (let len = length data in
      if len < 12 \<or> data ! 0 \<noteq> 12 then frame_add DISCARD_PACKET [] s
      else if data ! 1 AND UVC_STREAM_ERR \<noteq> 0 then frame_add DISCARD_PACKET [] s
      else if data ! 1 AND UVC_STREAM_PTS = 0 then frame_add DISCARD_PACKET [] s
      else if this_pts data \<noteq> last_pts s \<or> this_fid data \<noteq> last_fid s then
        (case (if last_packet_type s = INTER_PACKET
               then frame_add LAST_PACKET [] s else Inr s) of
           Inl e \<Rightarrow> Inl e
         | Inr s1 \<Rightarrow>
             frame_add FIRST_PACKET (drop 12 data)
               (s1\<lparr> last_pts := this_pts data, last_fid := this_fid data \<rparr>))
      else if data ! 1 AND UVC_STREAM_EOF \<noteq> 0 then
        (let s1 = s\<lparr> last_pts := 0 \<rparr> in
         if cur_frame_data_len s1 + of_nat len - 12 \<noteq> frame_size s1
         then frame_add DISCARD_PACKET [] s1
         else frame_add LAST_PACKET (drop 12 data) s1)
      else frame_add INTER_PACKET (drop 12 data) s)"

text \<open>
  \<^verbatim>\<open>pkt_scan\<close> (lines 933-1004): the transfer is cut into payloads of 2048 bytes, the
  last one being what remains. The loop body runs once also for an empty transfer.
\<close>

function pkt_scan :: "u8 list \<Rightarrow> URBDesc \<Rightarrow> fault + URBDesc" where
  "pkt_scan data s =
     (case pkt_scan_payload (take 2048 data) s of
        Inl e \<Rightarrow> Inl e
      | Inr s' \<Rightarrow> if length data > 2048 then pkt_scan (drop 2048 data) s' else Inr s')"
  by pat_completeness auto
termination
  by (relation "measure (\<lambda>(data, s). length data)") auto

declare pkt_scan.simps [simp del]

text \<open>
  A payload that passes the header checks of lines 950-965: at least 12 bytes, header
  length 12, no error bit, timestamp present.
\<close>

definition header_ok :: "u8 list \<Rightarrow> bool" where
  "header_ok data \<longleftrightarrow>
     12 \<le> length data \<and> data ! 0 = 12 \<and>
     data ! 1 AND UVC_STREAM_ERR = 0 \<and> data ! 1 AND UVC_STREAM_PTS \<noteq> 0"

text \<open>
  The invariant of an active \<^verbatim>\<open>URBDesc\<close>: the write pointer is the slot at
  \<^verbatim>\<open>head\<close> of a queue whose allocation holds all its slots, and no more than a
  frame has been accumulated.
\<close>

definition urb_inv :: "URBDesc \<Rightarrow> bool" where
  "urb_inv s \<longleftrightarrow>
     fq_inv (frame_queue s) \<and> fq_mem_ok (frame_queue s) \<and>
     fq_frame_size (frame_queue s) = frame_size s \<and>
     cur_frame_start s = unat (head (frame_queue s)) * unat (frame_size s) \<and>
     unat (cur_frame_data_len s) \<le> unat (frame_size s)"

text \<open>The scan is between frames: the last recorded packet type is discard or last.\<close>

definition discarding :: "URBDesc \<Rightarrow> bool" where
  "discarding s \<longleftrightarrow> last_packet_type s = DISCARD_PACKET \<or> last_packet_type s = LAST_PACKET"

text \<open>
  The transfers completed one after the other: \<^verbatim>\<open>transfer_completed_callback\<close> passes
  the bytes of each to \<^verbatim>\<open>pkt_scan\<close> (line 1045).
\<close>

fun transfers :: "u8 list list \<Rightarrow> URBDesc \<Rightarrow> fault + URBDesc" where
  "transfers [] s = Inr s"
| "transfers (data # rest) s =
     (case pkt_scan data s of Inl e \<Rightarrow> Inl e | Inr s' \<Rightarrow> transfers rest s')"

section \<open>Concrete inputs\<close>

text \<open>
  A pipeline started with frames of 4 bytes and a queue of depth 2 on memory that reads
  as zero, payloads with a 12-byte header, and the state reached after a first and a
  middle payload of the frame with timestamp 100.
\<close>

definition fresh4 :: URBDesc where
  "fresh4 = start_transfers DISCARD_PACKET 4 2 zero_mem"

definition unit_first :: "u8 list" where
  "unit_first = [12, 4, 100, 0, 0, 0, 0, 0, 0, 0, 0, 0, 1, 2]"

definition unit_mid :: "u8 list" where
  "unit_mid = [12, 4, 100, 0, 0, 0, 0, 0, 0, 0, 0, 0, 3]"

definition unit_last :: "u8 list" where
  "unit_last = [12, 6, 100, 0, 0, 0, 0, 0, 0, 0, 0, 0, 4]"

definition unit_last_short :: "u8 list" where
  "unit_last_short = [12, 6, 100, 0, 0, 0, 0, 0, 0, 0, 0, 0]"

definition unit_next :: "u8 list" where
  "unit_next = [12, 4, 200, 0, 0, 0, 0, 0, 0, 0, 0, 0, 5]"

definition unit_bad :: "u8 list" where
  "unit_bad = [11, 4, 100, 0, 0, 0, 0, 0, 0, 0, 0, 0, 6]"

definition unit_idle :: "u8 list" where
  "unit_idle = [12, 4, 0, 0, 0, 0, 0, 0, 0, 0, 0, 0, 9]"

definition mid_state :: URBDesc where
  "mid_state =
     \<lparr> last_packet_type = INTER_PACKET, last_pts = 100, last_fid = 0,
       cur_frame_start = 0, cur_frame_data_len = 3, frame_size = 4,
       frame_queue = \<lparr> fq_frame_size = 4, num_frames = 2,
                       frame_buffer = [1, 2, 3, 0, 0, 0, 0, 0],
                       head = 0, tail = 0, available = 0 \<rparr>,
       fa_log = [FIRST_PACKET, INTER_PACKET], enqueue_calls = 0 \<rparr>"

text \<open>
  The state reached at depth 2 once the frame with timestamp 100 is complete: the queue
  holds one unread frame and is full, and the write pointer is the slot at \<^verbatim>\<open>head\<close>.
\<close>

definition full_state :: URBDesc where
  "full_state =
     \<lparr> last_packet_type = LAST_PACKET, last_pts = 0, last_fid = 0,
       cur_frame_start = 4, cur_frame_data_len = 0, frame_size = 4,
       frame_queue = \<lparr> fq_frame_size = 4, num_frames = 2,
                       frame_buffer = [1, 2, 3, 4, 0, 0, 0, 0],
                       head = 1, tail = 0, available = 1 \<rparr>,
       fa_log = [FIRST_PACKET, INTER_PACKET, LAST_PACKET], enqueue_calls = 1 \<rparr>"

section \<open>Properties of the frame queue\<close>

subsection \<open>Arithmetic of the counters\<close>

lemma unat_max2: "unat (max d (2::u32)) = max (unat d) 2"
  by (simp add: max_def word_le_nat_alt)

lemma fq_inv_new: "fq_inv (FrameQueue_new fs d junk)"
  by (auto simp: fq_inv_def FrameQueue_new_def max_def word_le_nat_alt)

lemma unat_succ_mod:
  fixes h n :: u32
  assumes "unat h < unat n"
  shows "unat ((h + 1) mod n) = (unat h + 1) mod unat n"
proof -
  have "unat h + 1 < 2 ^ 32" using assms unsigned_less [of n, where 'a=nat] by simp
  then have "unat (h + 1) = unat h + 1"
    by (simp add: unat_add_lem [THEN iffD1])
  then show ?thesis by (simp add: unat_mod)
qed

lemma full_iff:
  fixes a n :: u32
  assumes "2 \<le> unat n"
  shows "(a \<ge> n - 1) \<longleftrightarrow> (unat n \<le> unat a + 1)"
proof -
  have "unat (n - 1) = unat n - 1" using assms by (simp add: unat_sub word_le_nat_alt)
  then show ?thesis using assms by (auto simp: word_le_nat_alt)
qed

lemma fq_inv_Enqueue:
  assumes "fq_inv q"
  shows "fq_inv (snd (Enqueue q))"
proof (cases "available q \<ge> num_frames q - 1")
  case True
  then show ?thesis using assms by (simp add: Enqueue_def)
next
  case False
  from assms have n2: "2 \<le> unat (num_frames q)" and h: "unat (head q) < unat (num_frames q)"
    and t: "unat (tail q) < unat (num_frames q)"
    and hd: "unat (head q) = (unat (tail q) + unat (available q)) mod unat (num_frames q)"
    by (simp_all add: fq_inv_def)
  from False n2 have a: "unat (available q) + 2 \<le> unat (num_frames q)"
    by (simp add: full_iff)
  have "unat (available q) + 1 < 2 ^ 32"
    using a unsigned_less [of "num_frames q", where 'a=nat] by simp
  then have a1: "unat (available q + 1) = unat (available q) + 1"
    by (simp add: unat_add_lem [THEN iffD1])
  have h1: "unat ((head q + 1) mod num_frames q) = (unat (head q) + 1) mod unat (num_frames q)"
    by (rule unat_succ_mod [OF h])
  have "(unat (head q) + 1) mod unat (num_frames q)
        = (unat (tail q) + (unat (available q) + 1)) mod unat (num_frames q)"
    unfolding hd by (metis add.assoc mod_add_left_eq)
  with False n2 t a a1 h1 show ?thesis
    by (simp add: Enqueue_def Let_def fq_inv_def)
qed

lemma fq_inv_Dequeue:
  assumes "fq_inv q" and "Dequeue q = Returns (f, q')"
  shows "fq_inv q'"
proof -
  from assms(2) have nz: "available q \<noteq> 0"
    and q': "q' = q\<lparr> tail := (tail q + 1) mod num_frames q, available := available q - 1 \<rparr>"
    by (auto simp: Dequeue_def split: if_splits sum.splits)
  from assms(1) have n2: "2 \<le> unat (num_frames q)" and h: "unat (head q) < unat (num_frames q)"
    and t: "unat (tail q) < unat (num_frames q)"
    and a: "unat (available q) + 1 \<le> unat (num_frames q)"
    and hd: "unat (head q) = (unat (tail q) + unat (available q)) mod unat (num_frames q)"
    by (simp_all add: fq_inv_def)
  from nz have apos: "0 < unat (available q)" by (simp add: unat_gt_0)
  then have a1: "unat (available q - 1) = unat (available q) - 1"
    by (simp add: unat_sub word_le_nat_alt)
  have t1: "unat ((tail q + 1) mod num_frames q) = (unat (tail q) + 1) mod unat (num_frames q)"
    by (rule unat_succ_mod [OF t])
  have "((unat (tail q) + 1) mod unat (num_frames q) + (unat (available q) - 1)) mod unat (num_frames q)
        = (unat (tail q) + unat (available q)) mod unat (num_frames q)"
  proof -
    have "unat (tail q) + unat (available q) = (unat (tail q) + 1) + (unat (available q) - 1)"
      using apos by simp
    then show ?thesis by (simp only: mod_add_left_eq)
  qed
  with n2 h a a1 t1 hd apos show ?thesis
    by (simp add: q' fq_inv_def)
qed

lemma fq_inv_step: "fq_inv q \<Longrightarrow> fq_step q c = Inr q' \<Longrightarrow> fq_inv q'"
  by (cases c) (auto simp: fq_inv_Enqueue split: outcome.splits dest: fq_inv_Dequeue)

lemma fq_inv_run: "fq_inv q \<Longrightarrow> fq_run q cs = Inr q' \<Longrightarrow> fq_inv q'"
proof (induction cs arbitrary: q)
  case Nil
  then show ?case by simp
next
  case (Cons c cs)
  then show ?case by (auto split: sum.splits dest: fq_inv_step)
qed

lemma fq_mem_ok_new:
  assumes "2 \<le> unat d" and "unat fs * unat d < 2 ^ 32"
  shows "fq_mem_ok (FrameQueue_new fs d junk)"
proof -
  from assms(1) have "max d 2 = d" by (auto simp: max_def word_le_nat_alt word_unat_eq_iff)
  moreover from assms(2) have "unat (fs * d) = unat fs * unat d"
    by (simp add: unat_mult_lem [THEN iffD1])
  ultimately show ?thesis using assms(2)
    by (simp add: fq_mem_ok_def FrameQueue_new_def)
qed

lemma slot_offset:
  fixes fs i n :: u32
  assumes "unat i < unat n" and "unat fs * unat n < 2 ^ 32"
  shows "unat (fs * i) = unat fs * unat i" and "unat fs * unat i + unat fs \<le> unat fs * unat n"
proof -
  have le: "unat fs * unat i + unat fs \<le> unat fs * unat n"
  proof -
    have "unat fs * unat i + unat fs = unat fs * Suc (unat i)" by simp
    also have "\<dots> \<le> unat fs * unat n" using assms(1) by (intro mult_le_mono2) simp
    finally show ?thesis .
  qed
  then show "unat fs * unat i + unat fs \<le> unat fs * unat n" .
  from le assms(2) have "unat fs * unat i < 2 ^ 32" by linarith
  then show "unat (fs * i) = unat fs * unat i"
    by (simp add: unat_mult_lem [THEN iffD1])
qed

lemma Dequeue_returns:
  assumes "fq_inv q" and "fq_mem_ok q" and "available q \<noteq> 0"
  shows "\<exists>f q'. Dequeue q = Returns (f, q')"
proof -
  from assms(1) have t: "unat (tail q) < unat (num_frames q)" by (simp add: fq_inv_def)
  from assms(2) have len: "length (frame_buffer q) = unat (fq_frame_size q) * unat (num_frames q)"
    and nov: "unat (fq_frame_size q) * unat (num_frames q) < 2 ^ 32"
    by (simp_all add: fq_mem_ok_def)
  note so = slot_offset [OF t nov]
  from so len have "memcpy_from (frame_buffer q) (unat (fq_frame_size q * tail q)) (unat (fq_frame_size q))
      = Inr (take (unat (fq_frame_size q)) (drop (unat (fq_frame_size q * tail q)) (frame_buffer q)))"
    by (simp add: memcpy_from_def)
  with assms(3) show ?thesis by (simp add: Dequeue_def)
qed

lemma fq_mem_ok_Enqueue: "fq_mem_ok q \<Longrightarrow> fq_mem_ok (snd (Enqueue q))"
  by (simp add: Enqueue_def fq_mem_ok_def Let_def)

lemma fq_mem_ok_Dequeue: "fq_mem_ok q \<Longrightarrow> Dequeue q = Returns (f, q') \<Longrightarrow> fq_mem_ok q'"
  by (auto simp: Dequeue_def fq_mem_ok_def split: if_splits sum.splits)

lemma fq_step_returns:
  assumes "fq_inv q" and "fq_mem_ok q"
  shows "\<exists>q'. fq_step q c = Inr q' \<and> fq_inv q' \<and> fq_mem_ok q'"
proof (cases c)
  case EnqueueCall
  with assms show ?thesis by (simp add: fq_inv_Enqueue fq_mem_ok_Enqueue)
next
  case DequeueCall
  show ?thesis
  proof (cases "available q = 0")
    case True
    with DequeueCall assms show ?thesis by (simp add: Dequeue_def)
  next
    case False
    from Dequeue_returns [OF assms False] obtain f q' where d: "Dequeue q = Returns (f, q')"
      by blast
    with assms have "fq_inv q'" "fq_mem_ok q'"
      by (blast intro: fq_inv_Dequeue fq_mem_ok_Dequeue)+
    with d DequeueCall show ?thesis by simp
  qed
qed

lemma fq_run_returns:
  "fq_inv q \<Longrightarrow> fq_mem_ok q \<Longrightarrow> \<exists>q'. fq_run q cs = Inr q'"
proof (induction cs arbitrary: q)
  case Nil
  then show ?case by simp
next
  case (Cons c cs)
  from fq_step_returns [OF Cons.prems, of c] obtain q1
    where "fq_step q c = Inr q1" "fq_inv q1" "fq_mem_ok q1" by blast
  with Cons.IH [of q1] show ?case by simp
qed

lemma num_frames_Enqueue: "num_frames (snd (Enqueue q)) = num_frames q"
  by (simp add: Enqueue_def Let_def)

lemma num_frames_step: "fq_step q c = Inr q' \<Longrightarrow> num_frames q' = num_frames q"
  by (cases c) (auto simp: num_frames_Enqueue Dequeue_def split: outcome.splits if_splits sum.splits)

lemma num_frames_run: "fq_run q cs = Inr q' \<Longrightarrow> num_frames q' = num_frames q"
proof (induction cs arbitrary: q)
  case Nil
  then show ?case by simp
next
  case (Cons c cs)
  then show ?case by (auto split: sum.splits dest: num_frames_step)
qed

lemma full_queue3_eq:
  "full_queue3 = \<lparr> fq_frame_size = 4, num_frames = 3, frame_buffer = map zero_mem [0 ..< 12],
                    head = 2, tail = 0, available = 2 \<rparr>"
proof -
  have two: "snd (enqueue_times 2 q) = snd (Enqueue (snd (Enqueue q)))" for q
    by (simp add: numeral_2_eq_2 split: prod.splits)
  show ?thesis
    unfolding full_queue3_def two
    by (simp add: FrameQueue_new_def Enqueue_def word_le_nat_alt)
qed

subsection \<open>The number of unread frames\<close>

text \<open>
  C1: Whatever calls of \<^verbatim>\<open>Enqueue\<close> and \<^verbatim>\<open>Dequeue\<close> are made on a queue built by
  the constructor, the capacity \<open>N\<close> is \<open>max d 2\<close>, hence at least 2, and
  \<^verbatim>\<open>available\<close> never exceeds \<open>N - 1\<close>. \<^verbatim>\<open>Enqueue\<close> increments
  \<^verbatim>\<open>available\<close> exactly when it is below \<open>N - 1\<close>, and a \<^verbatim>\<open>Dequeue\<close> that
  returns found it above 0 and decrements it. With a requested depth of at least 2 whose
  allocation size fits \<^verbatim>\<open>uint32_t\<close>, no history faults.
\<close>

theorem available_never_exceeds:
  "(\<forall>q'. fq_run (FrameQueue_new fs d junk) cs = Inr q' \<longrightarrow>
       num_frames q' = max d 2 \<and> 2 \<le> num_frames q' \<and> available q' \<le> num_frames q' - 1)
   \<and> (2 \<le> unat d \<and> unat fs * unat d < 2 ^ 32 \<longrightarrow>
       (\<exists>q'. fq_run (FrameQueue_new fs d junk) cs = Inr q'))
   \<and> available (snd (Enqueue q)) =
       (if available q < num_frames q - 1 then available q + 1 else available q)
   \<and> (\<forall>f q'. Dequeue q = Returns (f, q') \<longrightarrow>
       0 < available q \<and> available q' = available q - 1)"
proof (intro conjI allI impI)
  fix q' assume r: "fq_run (FrameQueue_new fs d junk) cs = Inr q'"
  from num_frames_run [OF r] show nf: "num_frames q' = max d 2"
    by (simp add: FrameQueue_new_def)
  show two: "2 \<le> num_frames q'" unfolding nf by simp
  from fq_inv_run [OF fq_inv_new r] have "fq_inv q'" .
  then have "2 \<le> unat (num_frames q')" "unat (available q') + 1 \<le> unat (num_frames q')"
    by (simp_all add: fq_inv_def)
  then show "available q' \<le> num_frames q' - 1"
    by (simp add: word_le_nat_alt unat_sub)
next
  assume "2 \<le> unat d \<and> unat fs * unat d < 2 ^ 32"
  then show "\<exists>q'. fq_run (FrameQueue_new fs d junk) cs = Inr q'"
    by (intro fq_run_returns fq_inv_new fq_mem_ok_new) simp_all
next
  show "available (snd (Enqueue q)) =
       (if available q < num_frames q - 1 then available q + 1 else available q)"
    by (auto simp: Enqueue_def Let_def)
next
  fix f q' assume "Dequeue q = Returns (f, q')"
  then show "0 < available q" "available q' = available q - 1"
    by (auto simp: Dequeue_def word_greater_zero_iff split: if_splits sum.splits)
qed

theorem available_never_exceeds_witness:
  "fq_run (FrameQueue_new 4 3 zero_mem) [EnqueueCall, EnqueueCall, EnqueueCall, DequeueCall]
     = Inr \<lparr> fq_frame_size = 4, num_frames = 3, frame_buffer = map zero_mem [0 ..< 12],
             head = 2, tail = 1, available = 1 \<rparr>
   \<and> (1 :: u32) \<le> 3 - 1
   \<and> 2 \<le> unat (3 :: u32) \<and> unat (4 :: u32) * unat (3 :: u32) < 2 ^ 32"
  using available_never_exceeds [of 4 3 zero_mem "[EnqueueCall, EnqueueCall, EnqueueCall, DequeueCall]"]
  by (simp add: FrameQueue_new_def Enqueue_def Dequeue_def memcpy_from_def word_le_nat_alt)

subsection \<open>Enqueue on a full queue\<close>

text \<open>
  C3: When \<^verbatim>\<open>available\<close> is \<open>N - 1\<close>, \<^verbatim>\<open>Enqueue\<close> returns the pointer to the
  slot at \<^verbatim>\<open>head\<close>, the current write slot, and leaves the queue as it is. On a
  queue of capacity 3, five calls of \<^verbatim>\<open>Enqueue\<close> with no \<^verbatim>\<open>Dequeue\<close> return
  the slots 1, 2, 2, 2, 2: the third, fourth and fifth calls return the same pointer,
  and \<^verbatim>\<open>available\<close> is 2 after the second call and stays there.
\<close>

theorem Enqueue_when_full:
  "(available q = num_frames q - 1 \<longrightarrow> Enqueue q = (unat (head q * fq_frame_size q), q))
   \<and> fst (enqueue_times 5 (FrameQueue_new fs 3 junk))
       = [unat fs, unat (2 * fs), unat (2 * fs), unat (2 * fs), unat (2 * fs)]
   \<and> available (snd (enqueue_times 2 (FrameQueue_new fs 3 junk))) = 2
   \<and> available (snd (enqueue_times 3 (FrameQueue_new fs 3 junk))) = 2
   \<and> available (snd (enqueue_times 4 (FrameQueue_new fs 3 junk))) = 2
   \<and> available (snd (enqueue_times 5 (FrameQueue_new fs 3 junk))) = 2
   \<and> snd (enqueue_times 5 (FrameQueue_new fs 3 junk)) = snd (enqueue_times 2 (FrameQueue_new fs 3 junk))"
proof -
  let ?b = "map junk [0 ..< unat (fs * 3)]"
  let ?q0 = "\<lparr> fq_frame_size = fs, num_frames = 3, frame_buffer = ?b, head = 0, tail = 0, available = 0 \<rparr>"
  let ?q1 = "\<lparr> fq_frame_size = fs, num_frames = 3, frame_buffer = ?b, head = 1, tail = 0, available = 1 \<rparr>"
  let ?q2 = "\<lparr> fq_frame_size = fs, num_frames = 3, frame_buffer = ?b, head = 2, tail = 0, available = 2 \<rparr>"
  have n: "FrameQueue_new fs 3 junk = ?q0" by (simp add: FrameQueue_new_def)
  have e0: "Enqueue ?q0 = (unat fs, ?q1)" by (simp add: Enqueue_def)
  have e1: "Enqueue ?q1 = (unat (2 * fs), ?q2)" by (simp add: Enqueue_def word_le_nat_alt)
  have e2: "Enqueue ?q2 = (unat (2 * fs), ?q2)" by (simp add: Enqueue_def)
  have t0: "enqueue_times 0 ?q2 = ([], ?q2)" by simp
  have t1: "enqueue_times 1 ?q2 = ([unat (2 * fs)], ?q2)" by (simp add: e2)
  have t2: "enqueue_times 2 ?q2 = ([unat (2 * fs), unat (2 * fs)], ?q2)"
    by (simp add: e2 numeral_2_eq_2)
  have t3: "enqueue_times 3 ?q2 = ([unat (2 * fs), unat (2 * fs), unat (2 * fs)], ?q2)"
    by (simp add: e2 numeral_3_eq_3)
  have s2: "enqueue_times 2 ?q0 = ([unat fs, unat (2 * fs)], ?q2)"
    by (simp add: e0 e1 numeral_2_eq_2)
  have s3: "enqueue_times 3 ?q0 = ([unat fs, unat (2 * fs), unat (2 * fs)], ?q2)"
    using t1 by (simp add: e0 e1 numeral_3_eq_3)
  have s4: "enqueue_times 4 ?q0 = ([unat fs, unat (2 * fs), unat (2 * fs), unat (2 * fs)], ?q2)"
    using t2 by (simp add: e0 e1 eval_nat_numeral)
  have s5: "enqueue_times 5 ?q0
      = ([unat fs, unat (2 * fs), unat (2 * fs), unat (2 * fs), unat (2 * fs)], ?q2)"
    using t3 by (simp add: e0 e1 eval_nat_numeral)
  have full: "available q = num_frames q - 1 \<longrightarrow> Enqueue q = (unat (head q * fq_frame_size q), q)"
    by (simp add: Enqueue_def)
  show ?thesis
    unfolding n s2 s3 s4 s5 using full by simp
qed

theorem Enqueue_when_full_witness:
  "available \<lparr> fq_frame_size = 4, num_frames = 3, frame_buffer = map zero_mem [0 ..< 12],
               head = 2, tail = 0, available = 2 \<rparr> = 3 - 1
   \<and> Enqueue \<lparr> fq_frame_size = 4, num_frames = 3, frame_buffer = map zero_mem [0 ..< 12],
               head = 2, tail = 0, available = 2 \<rparr>
       = (8, \<lparr> fq_frame_size = 4, num_frames = 3, frame_buffer = map zero_mem [0 ..< 12],
               head = 2, tail = 0, available = 2 \<rparr>)"
  using Enqueue_when_full [of "\<lparr> fq_frame_size = 4, num_frames = 3, frame_buffer = map zero_mem [0 ..< 12],
               head = 2, tail = 0, available = 2 \<rparr>"]
  by simp

text \<open>
  C4, as the claim states it, fails: on the full queue of three slots, the slot that
  \<^verbatim>\<open>Enqueue\<close> hands back for overwriting is the one at \<^verbatim>\<open>head\<close> (offset 8), not
  the one at \<^verbatim>\<open>tail\<close> (offset 0) that holds the oldest frame not yet dequeued.
\<close>

theorem full_Enqueue_reuses_oldest_counterexample:
  "available full_queue3 = num_frames full_queue3 - 1
   \<and> fst (Enqueue full_queue3) = 8
   \<and> unat (tail full_queue3 * fq_frame_size full_queue3) = 0
   \<and> fst (Enqueue full_queue3) \<noteq> unat (tail full_queue3 * fq_frame_size full_queue3)"
  by (simp add: full_queue3_eq Enqueue_def)

text \<open>
  C4, amended: in every state the queue can reach, when it is full \<^verbatim>\<open>Enqueue\<close>
  returns at once the slot at \<^verbatim>\<open>head\<close> and leaves the queue as it is. That slot
  lies \<open>N - 1\<close> slots after \<^verbatim>\<open>tail\<close> and is never the slot at \<^verbatim>\<open>tail\<close>, and in
  an active pipeline it is the slot the producer has just written: the frame given up
  is the newest one, and the \<open>N - 1\<close> unread frames, the oldest among them, are kept.
\<close>

theorem full_Enqueue_reuses_write_slot:
  assumes "fq_run (FrameQueue_new fs d junk) cs = Inr q"
    and "available q = num_frames q - 1"
  shows "Enqueue q = (unat (head q * fq_frame_size q), q)
    \<and> head q \<noteq> tail q
    \<and> unat (head q) = (unat (tail q) + (unat (num_frames q) - 1)) mod unat (num_frames q)
    \<and> (urb_inv s \<and> available (frame_queue s) = num_frames (frame_queue s) - 1 \<longrightarrow>
         Enqueue (frame_queue s) = (cur_frame_start s, frame_queue s))"
proof -
  have e: "Enqueue q = (unat (head q * fq_frame_size q), q)"
    using assms(2) by (simp add: Enqueue_def)
  from fq_inv_run [OF fq_inv_new assms(1)] have inv: "fq_inv q" .
  then have n2: "2 \<le> unat (num_frames q)" and t: "unat (tail q) < unat (num_frames q)"
    and hd: "unat (head q) = (unat (tail q) + unat (available q)) mod unat (num_frames q)"
    by (simp_all add: fq_inv_def)
  from n2 assms(2) have a: "unat (available q) = unat (num_frames q) - 1"
    by (simp add: unat_sub word_le_nat_alt)
  with hd have h: "unat (head q) = (unat (tail q) + (unat (num_frames q) - 1)) mod unat (num_frames q)"
    by simp
  have "unat (head q) \<noteq> unat (tail q)"
  proof (cases "unat (tail q) = 0")
    case True
    with h n2 show ?thesis by simp
  next
    case False
    then have "unat (tail q) + (unat (num_frames q) - 1) = unat (num_frames q) + (unat (tail q) - 1)"
      using n2 by simp
    then have "unat (head q) = (unat (tail q) - 1) mod unat (num_frames q)"
      using h by simp
    also have "\<dots> = unat (tail q) - 1" using t by simp
    finally show ?thesis using False by simp
  qed
  then have ne: "head q \<noteq> tail q" by auto
  have u: "Enqueue (frame_queue s) = (cur_frame_start s, frame_queue s)"
    if inv: "urb_inv s" and full: "available (frame_queue s) = num_frames (frame_queue s) - 1"
  proof -
    let ?q = "frame_queue s"
    from inv have "fq_inv ?q" and m: "fq_mem_ok ?q"
      and c: "cur_frame_start s = unat (head ?q) * unat (fq_frame_size ?q)"
      by (simp_all add: urb_inv_def)
    then have hl: "unat (head ?q) < unat (num_frames ?q)" by (simp add: fq_inv_def)
    from m have "unat (fq_frame_size ?q) * unat (num_frames ?q) < 2 ^ 32"
      by (simp add: fq_mem_ok_def)
    from slot_offset(1) [OF hl this] c
    have "unat (head ?q * fq_frame_size ?q) = cur_frame_start s"
      by (simp add: mult.commute)
    with full show ?thesis by (simp add: Enqueue_def)
  qed
  from e ne h u show ?thesis by simp
qed

theorem full_Enqueue_reuses_write_slot_witness:
  "fq_run (FrameQueue_new 4 3 zero_mem) [EnqueueCall, EnqueueCall] = Inr full_queue3
   \<and> available full_queue3 = num_frames full_queue3 - 1
   \<and> Enqueue full_queue3 = (8, full_queue3)
   \<and> head full_queue3 \<noteq> tail full_queue3
   \<and> urb_inv full_state
   \<and> available (frame_queue full_state) = num_frames (frame_queue full_state) - 1
   \<and> Enqueue (frame_queue full_state) = (4, frame_queue full_state)"
proof -
  have r: "fq_run (FrameQueue_new 4 3 zero_mem) [EnqueueCall, EnqueueCall] = Inr full_queue3"
    unfolding full_queue3_eq
    by (simp add: FrameQueue_new_def Enqueue_def word_le_nat_alt)
  have a: "available full_queue3 = num_frames full_queue3 - 1"
    by (simp add: full_queue3_eq)
  have i: "urb_inv full_state"
    by (simp add: urb_inv_def fq_inv_def fq_mem_ok_def full_state_def)
  have f: "available (frame_queue full_state) = num_frames (frame_queue full_state) - 1"
    by (simp add: full_state_def)
  have c: "cur_frame_start full_state = 4" by (simp add: full_state_def)
  from full_Enqueue_reuses_write_slot [OF r a, of full_state] i f
  have "Enqueue full_queue3 = (unat (head full_queue3 * fq_frame_size full_queue3), full_queue3)"
    and "head full_queue3 \<noteq> tail full_queue3"
    and "Enqueue (frame_queue full_state) = (cur_frame_start full_state, frame_queue full_state)"
    by simp_all
  with r a i f c show ?thesis by (simp add: full_queue3_eq)
qed

section \<open>Properties of the reassembly\<close>

subsection \<open>What one call of frame_add does\<close>

lemma frame_add_DISCARD:
  "\<exists>s'. frame_add DISCARD_PACKET [] s = Inr s'
     \<and> fa_log s' = fa_log s @ [DISCARD_PACKET]
     \<and> frame_queue s' = frame_queue s \<and> cur_frame_start s' = cur_frame_start s
     \<and> cur_frame_data_len s' = cur_frame_data_len s \<and> enqueue_calls s' = enqueue_calls s
     \<and> last_pts s' = last_pts s \<and> last_fid s' = last_fid s \<and> frame_size s' = frame_size s
     \<and> discarding s'"
  by (cases "last_packet_type s") (simp_all add: frame_add_def frame_add_append_def discarding_def)

lemma frame_add_while_discarding:
  assumes "discarding s" and "packet_type \<noteq> FIRST_PACKET"
  shows "\<exists>s'. frame_add packet_type data s = Inr s'
     \<and> fa_log s' = fa_log s @ [packet_type]
     \<and> frame_queue s' = frame_queue s \<and> cur_frame_start s' = cur_frame_start s
     \<and> (cur_frame_data_len s' = cur_frame_data_len s \<or> cur_frame_data_len s' = 0)
     \<and> enqueue_calls s' = enqueue_calls s
     \<and> last_pts s' = last_pts s \<and> last_fid s' = last_fid s \<and> frame_size s' = frame_size s
     \<and> discarding s'"
  using assms
  by (cases "last_packet_type s"; cases "packet_type = LAST_PACKET")
     (simp_all add: frame_add_def discarding_def Let_def)

lemma Enqueue_ptr: "fst (Enqueue q) = unat (head (snd (Enqueue q)) * fq_frame_size q)"
  by (simp add: Enqueue_def Let_def)

lemma Enqueue_fields:
  "fq_frame_size (snd (Enqueue q)) = fq_frame_size q"
  "frame_buffer (snd (Enqueue q)) = frame_buffer q"
  "tail (snd (Enqueue q)) = tail q"
  by (simp_all add: Enqueue_def Let_def)

lemma urb_inv_cong:
  assumes "urb_inv s"
    and "frame_queue s' = frame_queue s"
    and "cur_frame_start s' = cur_frame_start s"
    and "unat (cur_frame_data_len s') \<le> unat (cur_frame_data_len s)"
    and "frame_size s' = frame_size s"
  shows "urb_inv s'"
  using assms unfolding urb_inv_def by simp

lemma urb_inv_Enqueue:
  assumes "urb_inv s"
    and "frame_queue s' = snd (Enqueue (frame_queue s))"
    and "cur_frame_start s' = fst (Enqueue (frame_queue s))"
    and "cur_frame_data_len s' = 0"
    and "frame_size s' = frame_size s"
  shows "urb_inv s'"
proof -
  let ?q = "frame_queue s" and ?q' = "snd (Enqueue (frame_queue s))"
  from assms(1) have i: "fq_inv ?q" and m: "fq_mem_ok ?q" and f: "fq_frame_size ?q = frame_size s"
    by (simp_all add: urb_inv_def)
  have i': "fq_inv ?q'" by (rule fq_inv_Enqueue [OF i])
  have m': "fq_mem_ok ?q'" by (rule fq_mem_ok_Enqueue [OF m])
  from i' have h: "unat (head ?q') < unat (num_frames ?q)"
    by (simp add: fq_inv_def num_frames_Enqueue)
  from m f have nov: "unat (frame_size s) * unat (num_frames ?q) < 2 ^ 32"
    by (simp add: fq_mem_ok_def)
  have "unat (head ?q' * frame_size s) = unat (head ?q') * unat (frame_size s)"
    using slot_offset(1) [OF h nov] by (simp add: mult.commute)
  with i' m' f assms(2-5) show ?thesis
    by (simp add: urb_inv_def Enqueue_ptr Enqueue_fields)
qed

lemma urb_inv_bounds:
  assumes "urb_inv s"
  shows "unat (frame_size s) < 2 ^ 31"
    and "cur_frame_start s + unat (frame_size s) \<le> length (frame_buffer (frame_queue s))"
proof -
  let ?q = "frame_queue s"
  from assms have i: "fq_inv ?q" and m: "fq_mem_ok ?q" and f: "fq_frame_size ?q = frame_size s"
    and cs: "cur_frame_start s = unat (head ?q) * unat (frame_size s)"
    by (simp_all add: urb_inv_def)
  from i have n2: "2 \<le> unat (num_frames ?q)" and h: "unat (head ?q) < unat (num_frames ?q)"
    by (simp_all add: fq_inv_def)
  from m f have nov: "unat (frame_size s) * unat (num_frames ?q) < 2 ^ 32"
    and len: "length (frame_buffer ?q) = unat (frame_size s) * unat (num_frames ?q)"
    by (simp_all add: fq_mem_ok_def)
  have "unat (frame_size s) * 2 \<le> unat (frame_size s) * unat (num_frames ?q)"
    using n2 by (intro mult_le_mono2)
  with nov have "unat (frame_size s) * 2 < 2 ^ 32" by linarith
  then show "unat (frame_size s) < 2 ^ 31" by simp
  from slot_offset(2) [OF h nov] cs len
  show "cur_frame_start s + unat (frame_size s) \<le> length (frame_buffer ?q)"
    by (simp add: mult.commute)
qed

lemma unat_add_of_nat:
  fixes c :: u32
  assumes "unat c + n < 2 ^ 32"
  shows "unat (c + of_nat n) = unat c + n"
proof -
  from assms have n: "n < 2 ^ 32" by simp
  then have "unat (of_nat n :: u32) = n" by (simp add: unat_of_nat)
  with assms show ?thesis by (simp add: unat_add_lem [THEN iffD1])
qed

lemma frame_add_append_fits:
  assumes inv: "urb_inv s"
    and fit: "unat (cur_frame_data_len s) + length data \<le> unat (frame_size s)"
  shows "\<exists>s'. frame_add_append packet_type data s = Inr s' \<and> urb_inv s'
     \<and> last_packet_type s' = packet_type \<and> fa_log s' = fa_log s
     \<and> last_pts s' = last_pts s \<and> last_fid s' = last_fid s \<and> frame_size s' = frame_size s
     \<and> frame_buffer (frame_queue s') =
          take (cur_frame_start s + unat (cur_frame_data_len s)) (frame_buffer (frame_queue s))
          @ data
          @ drop (cur_frame_start s + unat (cur_frame_data_len s) + length data)
              (frame_buffer (frame_queue s))
     \<and> (packet_type \<noteq> LAST_PACKET \<longrightarrow>
          cur_frame_start s' = cur_frame_start s
          \<and> unat (cur_frame_data_len s') = unat (cur_frame_data_len s) + length data
          \<and> head (frame_queue s') = head (frame_queue s)
          \<and> tail (frame_queue s') = tail (frame_queue s)
          \<and> available (frame_queue s') = available (frame_queue s)
          \<and> enqueue_calls s' = enqueue_calls s)
     \<and> (packet_type = LAST_PACKET \<longrightarrow>
          cur_frame_data_len s' = 0
          \<and> cur_frame_start s' = fst (Enqueue (frame_queue s))
          \<and> head (frame_queue s') = head (snd (Enqueue (frame_queue s)))
          \<and> tail (frame_queue s') = tail (frame_queue s)
          \<and> available (frame_queue s') = available (snd (Enqueue (frame_queue s)))
          \<and> enqueue_calls s' = enqueue_calls s + 1)"
proof -
  let ?q = "frame_queue s" and ?buf = "frame_buffer (frame_queue s)"
  let ?off = "cur_frame_start s + unat (cur_frame_data_len s)"
  let ?B = "take ?off ?buf @ data @ drop (?off + length data) ?buf"
  let ?s1 = "s\<lparr> frame_queue := ?q\<lparr> frame_buffer := ?B \<rparr>,
                 cur_frame_data_len := cur_frame_data_len s + of_nat (length data) \<rparr>"
  note b = urb_inv_bounds [OF inv]
  have lt: "unat (frame_size s) < 2 ^ 32" using b(1) by simp
  with fit have sum: "unat (cur_frame_data_len s + of_nat (length data))
      = unat (cur_frame_data_len s) + length data"
    by (intro unat_add_of_nat) simp
  with fit have nogt: "\<not> cur_frame_data_len s + of_nat (length data) > frame_size s"
    by (simp add: word_less_nat_alt)
  from fit b(2) have inb: "?off + length data \<le> length ?buf" by simp
  then have mc: "memcpy_to ?buf ?off data = Inr ?B" by (simp add: memcpy_to_def)
  from inb have lenB: "length ?B = length ?buf" by simp
  have inv1: "urb_inv ?s1"
  proof -
    from inv have "fq_inv ?q" "fq_mem_ok ?q" "fq_frame_size ?q = frame_size s"
      "cur_frame_start s = unat (head ?q) * unat (frame_size s)"
      by (simp_all add: urb_inv_def)
    moreover from \<open>fq_inv ?q\<close> have "fq_inv (?q\<lparr> frame_buffer := ?B \<rparr>)"
      by (simp add: fq_inv_def)
    moreover from \<open>fq_mem_ok ?q\<close> have "fq_mem_ok (?q\<lparr> frame_buffer := ?B \<rparr>)"
      unfolding fq_mem_ok_def using lenB by simp
    ultimately show ?thesis
      unfolding urb_inv_def using fit sum by simp
  qed
  have q1: "Enqueue (?q\<lparr> frame_buffer := ?B \<rparr>)
      = (fst (Enqueue ?q), (snd (Enqueue ?q))\<lparr> frame_buffer := ?B \<rparr>)"
    by (simp add: Enqueue_def Let_def)
  let ?sL = "?s1\<lparr> last_packet_type := LAST_PACKET, cur_frame_data_len := 0,
                   cur_frame_start := fst (Enqueue (frame_queue ?s1)),
                   frame_queue := snd (Enqueue (frame_queue ?s1)),
                   enqueue_calls := enqueue_calls s + 1 \<rparr>"
  let ?sN = "?s1\<lparr> last_packet_type := packet_type \<rparr>"
  have res: "frame_add_append packet_type data s
      = Inr (if packet_type = LAST_PACKET then ?sL else ?sN)"
  proof (cases "data = []")
    case True
    then have "?s1 = s" by simp
    with True show ?thesis by (simp add: frame_add_append_def Let_def)
  next
    case False
    with nogt mc show ?thesis by (simp add: frame_add_append_def Let_def)
  qed
  have invL: "urb_inv ?sL" by (rule urb_inv_Enqueue [OF inv1]) simp_all
  have invN: "urb_inv ?sN" by (rule urb_inv_cong [OF inv1]) simp_all
  show ?thesis
  proof (cases "packet_type = LAST_PACKET")
    case True
    with res invL show ?thesis by (simp add: q1 Enqueue_fields)
  next
    case False
    with res invN sum show ?thesis by simp
  qed
qed

lemma frame_add_append_overflow:
  assumes "data \<noteq> []" and "cur_frame_data_len s + of_nat (length data) > frame_size s"
  shows "frame_add_append packet_type data s
     = Inr (s\<lparr> cur_frame_data_len := 0, last_packet_type := DISCARD_PACKET \<rparr>)"
  using assms by (simp add: frame_add_append_def)

lemma frame_add_append_safe:
  assumes inv: "urb_inv s" and len: "length data \<le> 2048"
  shows "\<exists>s'. frame_add_append packet_type data s = Inr s' \<and> urb_inv s'
     \<and> fa_log s' = fa_log s \<and> last_pts s' = last_pts s \<and> last_fid s' = last_fid s
     \<and> frame_size s' = frame_size s
     \<and> (last_packet_type s' = packet_type \<or> last_packet_type s' = DISCARD_PACKET)"
proof (cases "data \<noteq> [] \<and> cur_frame_data_len s + of_nat (length data) > frame_size s")
  case True
  have "urb_inv (s\<lparr> cur_frame_data_len := 0, last_packet_type := DISCARD_PACKET \<rparr>)"
    by (rule urb_inv_cong [OF inv]) simp_all
  with True show ?thesis by (simp add: frame_add_append_overflow)
next
  case False
  have fit: "unat (cur_frame_data_len s) + length data \<le> unat (frame_size s)"
  proof (cases "data = []")
    case True
    with inv show ?thesis by (simp add: urb_inv_def)
  next
    case ne: False
    from inv have "unat (cur_frame_data_len s) \<le> unat (frame_size s)"
      by (simp add: urb_inv_def)
    with urb_inv_bounds(1) [OF inv] len
    have "unat (cur_frame_data_len s) + length data < 2 ^ 32" by simp
    then have "unat (cur_frame_data_len s + of_nat (length data))
        = unat (cur_frame_data_len s) + length data"
      by (rule unat_add_of_nat)
    moreover from ne False
    have "\<not> cur_frame_data_len s + of_nat (length data) > frame_size s" by simp
    ultimately show ?thesis by (simp add: word_less_nat_alt)
  qed
  from frame_add_append_fits [OF inv fit, of packet_type] show ?thesis by blast
qed

lemma frame_add_safe:
  assumes inv: "urb_inv s" and len: "length data \<le> 2048"
  shows "\<exists>s'. frame_add packet_type data s = Inr s' \<and> urb_inv s'
     \<and> fa_log s' = fa_log s @ [packet_type]
     \<and> last_pts s' = last_pts s \<and> last_fid s' = last_fid s
     \<and> frame_size s' = frame_size s
     \<and> (packet_type \<noteq> INTER_PACKET \<longrightarrow> last_packet_type s' \<noteq> INTER_PACKET)"
proof (cases "packet_type = FIRST_PACKET")
  case True
  let ?s = "s\<lparr> fa_log := fa_log s @ [packet_type], cur_frame_data_len := 0 \<rparr>"
  have "urb_inv ?s" by (rule urb_inv_cong [OF inv]) simp_all
  from frame_add_append_safe [OF this len, of packet_type] True show ?thesis
    by (auto simp: frame_add_def)
next
  case False
  show ?thesis
  proof (cases "discarding s")
    case True
    from frame_add_while_discarding [OF True False, of data] obtain s'
      where s': "frame_add packet_type data s = Inr s'" "fa_log s' = fa_log s @ [packet_type]"
        "frame_queue s' = frame_queue s" "cur_frame_start s' = cur_frame_start s"
        "cur_frame_data_len s' = cur_frame_data_len s \<or> cur_frame_data_len s' = 0"
        "last_pts s' = last_pts s" "last_fid s' = last_fid s" "frame_size s' = frame_size s"
        "discarding s'"
      by blast
    have "urb_inv s'" using s'(3,4,5,8) by (intro urb_inv_cong [OF inv]) auto
    with s' show ?thesis by (auto simp: discarding_def)
  next
    case nd: False
    let ?s = "s\<lparr> fa_log := fa_log s @ [packet_type] \<rparr>"
    have i: "urb_inv ?s" by (rule urb_inv_cong [OF inv]) simp_all
    from nd False have "frame_add packet_type data s = frame_add_append packet_type data ?s"
      by (cases "last_packet_type s") (simp_all add: frame_add_def discarding_def)
    with frame_add_append_safe [OF i len, of packet_type] show ?thesis by auto
  qed
qed

subsection \<open>The branches of the scan, and memory safety\<close>

lemma pkt_scan_payload_bad:
  "\<not> header_ok data \<Longrightarrow> pkt_scan_payload data s = frame_add DISCARD_PACKET [] s"
  by (auto simp: pkt_scan_payload_def header_ok_def Let_def)

lemma pkt_scan_payload_new:
  "header_ok data \<Longrightarrow> this_pts data \<noteq> last_pts s \<or> this_fid data \<noteq> last_fid s \<Longrightarrow>
   pkt_scan_payload data s =
     (case (if last_packet_type s = INTER_PACKET then frame_add LAST_PACKET [] s else Inr s) of
        Inl e \<Rightarrow> Inl e
      | Inr s1 \<Rightarrow> frame_add FIRST_PACKET (drop 12 data)
                   (s1\<lparr> last_pts := this_pts data, last_fid := this_fid data \<rparr>))"
  by (auto simp: pkt_scan_payload_def header_ok_def Let_def)

lemma pkt_scan_payload_eof:
  "header_ok data \<Longrightarrow> this_pts data = last_pts s \<Longrightarrow> this_fid data = last_fid s \<Longrightarrow>
   data ! 1 AND UVC_STREAM_EOF \<noteq> 0 \<Longrightarrow>
   pkt_scan_payload data s =
     (if cur_frame_data_len s + of_nat (length data) - 12 \<noteq> frame_size s
      then frame_add DISCARD_PACKET [] (s\<lparr> last_pts := 0 \<rparr>)
      else frame_add LAST_PACKET (drop 12 data) (s\<lparr> last_pts := 0 \<rparr>))"
  by (auto simp: pkt_scan_payload_def header_ok_def Let_def)

lemma pkt_scan_payload_mid:
  "header_ok data \<Longrightarrow> this_pts data = last_pts s \<Longrightarrow> this_fid data = last_fid s \<Longrightarrow>
   data ! 1 AND UVC_STREAM_EOF = 0 \<Longrightarrow>
   pkt_scan_payload data s = frame_add INTER_PACKET (drop 12 data) s"
  by (auto simp: pkt_scan_payload_def header_ok_def Let_def)

lemma pkt_scan_payload_safe:
  assumes inv: "urb_inv s" and len: "length data \<le> 2048"
  shows "\<exists>s'. pkt_scan_payload data s = Inr s' \<and> urb_inv s' \<and> frame_size s' = frame_size s"
proof -
  have d: "length (drop 12 data) \<le> 2048" using len by simp
  have e: "length ([] :: u8 list) \<le> 2048" by simp
  consider (bad) "\<not> header_ok data"
    | (new) "header_ok data" "this_pts data \<noteq> last_pts s \<or> this_fid data \<noteq> last_fid s"
    | (eof) "header_ok data" "this_pts data = last_pts s" "this_fid data = last_fid s"
        "data ! 1 AND UVC_STREAM_EOF \<noteq> 0"
    | (mid) "header_ok data" "this_pts data = last_pts s" "this_fid data = last_fid s"
        "data ! 1 AND UVC_STREAM_EOF = 0"
    by blast
  then show ?thesis
  proof cases
    case bad
    from frame_add_safe [OF inv e, of DISCARD_PACKET] show ?thesis
      unfolding pkt_scan_payload_bad [OF bad] by blast
  next
    case new
    obtain s1 where s1: "(if last_packet_type s = INTER_PACKET
        then frame_add LAST_PACKET [] s else Inr s) = Inr s1" "urb_inv s1" "frame_size s1 = frame_size s"
      using frame_add_safe [OF inv e, of LAST_PACKET] inv by (cases "last_packet_type s = INTER_PACKET") auto
    let ?s1 = "s1\<lparr> last_pts := this_pts data, last_fid := this_fid data \<rparr>"
    have "urb_inv ?s1" by (rule urb_inv_cong [OF s1(2)]) simp_all
    from frame_add_safe [OF this d, of FIRST_PACKET] s1 show ?thesis
      unfolding pkt_scan_payload_new [OF new] by auto
  next
    case eof
    let ?s1 = "s\<lparr> last_pts := 0 \<rparr>"
    have i: "urb_inv ?s1" by (rule urb_inv_cong [OF inv]) simp_all
    from frame_add_safe [OF i e, of DISCARD_PACKET] frame_add_safe [OF i d, of LAST_PACKET]
    show ?thesis
      unfolding pkt_scan_payload_eof [OF eof] by auto
  next
    case mid
    from frame_add_safe [OF inv d, of INTER_PACKET] show ?thesis
      unfolding pkt_scan_payload_mid [OF mid] by blast
  qed
qed

lemma pkt_scan_safe:
  "urb_inv s \<Longrightarrow> \<exists>s'. pkt_scan data s = Inr s' \<and> urb_inv s' \<and> frame_size s' = frame_size s"
proof (induction data s rule: pkt_scan.induct)
  case (1 data s)
  have "length (take 2048 data) \<le> 2048" by simp
  from pkt_scan_payload_safe [OF "1.prems" this] obtain s1
    where s1: "pkt_scan_payload (take 2048 data) s = Inr s1" "urb_inv s1" "frame_size s1 = frame_size s"
    by blast
  show ?case
  proof (cases "length data > 2048")
    case True
    from "1.IH" [OF s1(1) True s1(2)] obtain s'
      where "pkt_scan (drop 2048 data) s1 = Inr s'" "urb_inv s'" "frame_size s' = frame_size s1"
      by blast
    with s1 True show ?thesis by (subst pkt_scan.simps) simp
  next
    case False
    with s1 show ?thesis by (subst pkt_scan.simps) simp
  qed
qed

lemma pkt_scan_single:
  "length data \<le> 2048 \<Longrightarrow> pkt_scan data s = pkt_scan_payload data s"
  by (subst pkt_scan.simps) (simp split: sum.splits)

subsection \<open>Headers, frame contents and the log\<close>

lemma hdr_first: "header_ok (12 # 4 # 100 # 0 # 0 # 0 # rest) \<longleftrightarrow> 6 \<le> length rest"
  by (auto simp: header_ok_def UVC_STREAM_ERR_def UVC_STREAM_PTS_def)

lemma hdr_last: "header_ok (12 # 6 # 100 # 0 # 0 # 0 # rest) \<longleftrightarrow> 6 \<le> length rest"
  by (auto simp: header_ok_def UVC_STREAM_ERR_def UVC_STREAM_PTS_def)

lemma pts_100: "this_pts (a # b # 100 # 0 # 0 # 0 # rest) = 100"
  by (simp add: this_pts_def)

lemma fid_4: "this_fid (a # 4 # rest) = 0" "this_fid (a # 6 # rest) = 0"
  by (simp_all add: this_fid_def UVC_STREAM_FID_def)

lemma written_frame:
  assumes "a + c + length d \<le> length buf"
  shows "take (c + length d) (drop a (take (a + c) buf @ d @ drop (a + c + length d) buf))
     = take c (drop a buf) @ d"
proof -
  have "length (take (a + c) buf) = a + c" using assms by simp
  then have "drop a (take (a + c) buf @ d @ drop (a + c + length d) buf)
      = drop a (take (a + c) buf) @ d @ drop (a + c + length d) buf"
    by simp
  also have "drop a (take (a + c) buf) = take c (drop a buf)"
    by (simp add: drop_take)
  finally show ?thesis using assms by simp
qed

lemma frame_add_log:
  "frame_add packet_type data s = Inr s' \<Longrightarrow> fa_log s' = fa_log s @ [packet_type]"
  by (cases "last_packet_type s")
     (auto simp: frame_add_def frame_add_append_def Let_def split: if_splits sum.splits)

lemma frame_add_in_frame:
  "last_packet_type s = FIRST_PACKET \<or> last_packet_type s = INTER_PACKET \<Longrightarrow>
   packet_type \<noteq> FIRST_PACKET \<Longrightarrow>
   frame_add packet_type data s
     = frame_add_append packet_type data (s\<lparr> fa_log := fa_log s @ [packet_type] \<rparr>)"
  by (auto simp: frame_add_def)

lemma frame_add_FIRST:
  "frame_add FIRST_PACKET data s
     = frame_add_append FIRST_PACKET data
         (s\<lparr> fa_log := fa_log s @ [FIRST_PACKET], cur_frame_data_len := 0 \<rparr>)"
  by (simp add: frame_add_def)

lemma frame_add_FIRST_fits:
  assumes inv: "urb_inv s" and fit: "length data \<le> unat (frame_size s)"
  shows "\<exists>s'. frame_add FIRST_PACKET data s = Inr s' \<and> urb_inv s'
     \<and> last_packet_type s' = FIRST_PACKET \<and> fa_log s' = fa_log s @ [FIRST_PACKET]
     \<and> last_pts s' = last_pts s \<and> last_fid s' = last_fid s \<and> frame_size s' = frame_size s
     \<and> frame_buffer (frame_queue s') =
          take (cur_frame_start s) (frame_buffer (frame_queue s)) @ data
          @ drop (cur_frame_start s + length data) (frame_buffer (frame_queue s))
     \<and> cur_frame_start s' = cur_frame_start s
     \<and> unat (cur_frame_data_len s') = length data
     \<and> head (frame_queue s') = head (frame_queue s)
     \<and> tail (frame_queue s') = tail (frame_queue s)
     \<and> available (frame_queue s') = available (frame_queue s)
     \<and> enqueue_calls s' = enqueue_calls s"
proof -
  let ?s = "s\<lparr> fa_log := fa_log s @ [FIRST_PACKET], cur_frame_data_len := 0 \<rparr>"
  have i: "urb_inv ?s" by (rule urb_inv_cong [OF inv]) simp_all
  have f: "unat (cur_frame_data_len ?s) + length data \<le> unat (frame_size ?s)"
    using fit by simp
  from frame_add_append_fits [OF i f, of FIRST_PACKET] show ?thesis
    unfolding frame_add_FIRST by simp
qed

lemma frame_add_LAST_fits:
  assumes inv: "urb_inv s"
    and inframe: "last_packet_type s = FIRST_PACKET \<or> last_packet_type s = INTER_PACKET"
    and fit: "unat (cur_frame_data_len s) + length data \<le> unat (frame_size s)"
  shows "\<exists>s'. frame_add LAST_PACKET data s = Inr s' \<and> urb_inv s'
     \<and> last_packet_type s' = LAST_PACKET \<and> fa_log s' = fa_log s @ [LAST_PACKET]
     \<and> last_pts s' = last_pts s \<and> last_fid s' = last_fid s \<and> frame_size s' = frame_size s
     \<and> frame_buffer (frame_queue s') =
          take (cur_frame_start s + unat (cur_frame_data_len s)) (frame_buffer (frame_queue s))
          @ data
          @ drop (cur_frame_start s + unat (cur_frame_data_len s) + length data)
              (frame_buffer (frame_queue s))
     \<and> cur_frame_data_len s' = 0
     \<and> cur_frame_start s' = fst (Enqueue (frame_queue s))
     \<and> head (frame_queue s') = head (snd (Enqueue (frame_queue s)))
     \<and> tail (frame_queue s') = tail (frame_queue s)
     \<and> available (frame_queue s') = available (snd (Enqueue (frame_queue s)))
     \<and> enqueue_calls s' = enqueue_calls s + 1"
proof -
  let ?s = "s\<lparr> fa_log := fa_log s @ [LAST_PACKET] \<rparr>"
  have i: "urb_inv ?s" by (rule urb_inv_cong [OF inv]) simp_all
  have f: "unat (cur_frame_data_len ?s) + length data \<le> unat (frame_size ?s)"
    using fit by simp
  from frame_add_append_fits [OF i f, of LAST_PACKET] show ?thesis
    unfolding frame_add_in_frame [OF inframe, of LAST_PACKET, simplified] by simp
qed

lemma frame_add_FIRST_effects:
  assumes inv: "urb_inv s" and len: "length data \<le> 2048"
  shows "\<exists>s'. frame_add FIRST_PACKET data s = Inr s' \<and> urb_inv s'
     \<and> fa_log s' = fa_log s @ [FIRST_PACKET]
     \<and> last_pts s' = last_pts s \<and> last_fid s' = last_fid s \<and> frame_size s' = frame_size s
     \<and> cur_frame_start s' = cur_frame_start s
     \<and> head (frame_queue s') = head (frame_queue s)
     \<and> tail (frame_queue s') = tail (frame_queue s)
     \<and> available (frame_queue s') = available (frame_queue s)
     \<and> enqueue_calls s' = enqueue_calls s
     \<and> (length data \<le> unat (frame_size s) \<longrightarrow>
          last_packet_type s' = FIRST_PACKET
          \<and> unat (cur_frame_data_len s') = length data
          \<and> take (length data) (drop (cur_frame_start s') (frame_buffer (frame_queue s')))
              = data)
     \<and> (unat (frame_size s) < length data \<longrightarrow>
          last_packet_type s' = DISCARD_PACKET \<and> frame_queue s' = frame_queue s)"
proof (cases "length data \<le> unat (frame_size s)")
  case True
  from frame_add_FIRST_fits [OF inv True] obtain s'
    where s': "frame_add FIRST_PACKET data s = Inr s'" "urb_inv s'"
      "last_packet_type s' = FIRST_PACKET" "fa_log s' = fa_log s @ [FIRST_PACKET]"
      "last_pts s' = last_pts s" "last_fid s' = last_fid s" "frame_size s' = frame_size s"
      "frame_buffer (frame_queue s') =
          take (cur_frame_start s) (frame_buffer (frame_queue s)) @ data
          @ drop (cur_frame_start s + length data) (frame_buffer (frame_queue s))"
      "cur_frame_start s' = cur_frame_start s"
      "unat (cur_frame_data_len s') = length data"
      "head (frame_queue s') = head (frame_queue s)"
      "tail (frame_queue s') = tail (frame_queue s)"
      "available (frame_queue s') = available (frame_queue s)"
      "enqueue_calls s' = enqueue_calls s"
    by blast
  have inb: "cur_frame_start s + 0 + length data \<le> length (frame_buffer (frame_queue s))"
    using urb_inv_bounds(2) [OF inv] True by simp
  have "take (length data) (drop (cur_frame_start s') (frame_buffer (frame_queue s'))) = data"
    using written_frame [OF inb] unfolding s'(8,9) by simp
  with s' True show ?thesis by auto
next
  case False
  let ?s = "s\<lparr> fa_log := fa_log s @ [FIRST_PACKET], cur_frame_data_len := 0 \<rparr>"
  from False have ne: "data \<noteq> []" by auto
  from len have "length data < 2 ^ 32" by simp
  then have "unat (of_nat (length data) :: u32) = length data" by (simp add: unat_of_nat)
  with False have gt: "cur_frame_data_len ?s + of_nat (length data) > frame_size ?s"
    by (simp add: word_less_nat_alt)
  have r: "frame_add FIRST_PACKET data s
      = Inr (?s\<lparr> cur_frame_data_len := 0, last_packet_type := DISCARD_PACKET \<rparr>)"
    unfolding frame_add_FIRST by (rule frame_add_append_overflow [OF ne gt])
  have "urb_inv (?s\<lparr> cur_frame_data_len := 0, last_packet_type := DISCARD_PACKET \<rparr>)"
    by (rule urb_inv_cong [OF inv]) simp_all
  with r False show ?thesis by simp
qed

lemma payload_len_word:
  assumes "12 \<le> length u"
  shows "(c :: u32) + of_nat (length (drop 12 u)) = c + of_nat (length u) - 12"
proof -
  have "of_nat (length u - 12) = (of_nat (length u) - of_nat 12 :: u32)"
    using assms by (rule of_nat_diff)
  then show ?thesis by simp
qed

lemma frame_add_enqueue_calls:
  "frame_add packet_type data s = Inr s' \<Longrightarrow> enqueue_calls s' \<noteq> enqueue_calls s \<Longrightarrow>
   packet_type = LAST_PACKET \<and> enqueue_calls s' = enqueue_calls s + 1
   \<and> last_packet_type s' = LAST_PACKET
   \<and> (last_packet_type s = FIRST_PACKET \<or> last_packet_type s = INTER_PACKET)"
  by (cases "last_packet_type s"; cases packet_type)
     (auto simp: frame_add_def frame_add_append_def Let_def split: if_splits sum.splits)

subsection \<open>Scanning between frames\<close>

lemma payload_while_discarding:
  assumes d: "discarding s" and r: "pkt_scan_payload u s = Inr s'"
  shows "(\<exists>l. fa_log s' = fa_log s @ l)
     \<and> (FIRST_PACKET \<notin> set (drop (length (fa_log s)) (fa_log s')) \<longrightarrow>
          frame_queue s' = frame_queue s \<and> cur_frame_start s' = cur_frame_start s
          \<and> enqueue_calls s' = enqueue_calls s \<and> discarding s')"
proof -
  consider (bad) "\<not> header_ok u"
    | (new) "header_ok u" "this_pts u \<noteq> last_pts s \<or> this_fid u \<noteq> last_fid s"
    | (eof) "header_ok u" "this_pts u = last_pts s" "this_fid u = last_fid s"
        "u ! 1 AND UVC_STREAM_EOF \<noteq> 0"
    | (mid) "header_ok u" "this_pts u = last_pts s" "this_fid u = last_fid s"
        "u ! 1 AND UVC_STREAM_EOF = 0"
    by blast
  then show ?thesis
  proof cases
    case bad
    from frame_add_DISCARD [of s] r show ?thesis
      unfolding pkt_scan_payload_bad [OF bad] by auto
  next
    case new
    from d have "last_packet_type s \<noteq> INTER_PACKET" by (auto simp: discarding_def)
    with r have "frame_add FIRST_PACKET (drop 12 u)
        (s\<lparr> last_pts := this_pts u, last_fid := this_fid u \<rparr>) = Inr s'"
      unfolding pkt_scan_payload_new [OF new] by simp
    from frame_add_log [OF this] show ?thesis by simp
  next
    case eof
    let ?s0 = "s\<lparr> last_pts := 0 \<rparr>"
    have d0: "discarding ?s0" using d by (simp add: discarding_def)
    from frame_add_while_discarding [OF d0, of DISCARD_PACKET "[]"]
      frame_add_while_discarding [OF d0, of LAST_PACKET "drop 12 u"] r
    show ?thesis
      unfolding pkt_scan_payload_eof [OF eof] by (auto split: if_splits)
  next
    case mid
    from frame_add_while_discarding [OF d, of INTER_PACKET "drop 12 u"] r
    show ?thesis
      unfolding pkt_scan_payload_mid [OF mid] by auto
  qed
qed

lemma pkt_scan_Inr:
  "pkt_scan data s = Inr s' \<longleftrightarrow>
     (\<exists>s1. pkt_scan_payload (take 2048 data) s = Inr s1
        \<and> (if length data > 2048 then pkt_scan (drop 2048 data) s1 = Inr s' else s' = s1))"
  by (subst pkt_scan.simps) (auto split: sum.splits)

lemma pkt_scan_payload_log:
  assumes "pkt_scan_payload u s = Inr s'"
  shows "\<exists>l. fa_log s' = fa_log s @ l"
proof -
  consider (bad) "\<not> header_ok u"
    | (new) "header_ok u" "this_pts u \<noteq> last_pts s \<or> this_fid u \<noteq> last_fid s"
    | (eof) "header_ok u" "this_pts u = last_pts s" "this_fid u = last_fid s"
        "u ! 1 AND UVC_STREAM_EOF \<noteq> 0"
    | (mid) "header_ok u" "this_pts u = last_pts s" "this_fid u = last_fid s"
        "u ! 1 AND UVC_STREAM_EOF = 0"
    by blast
  then show ?thesis
  proof cases
    case bad
    with assms show ?thesis
      by (auto simp: pkt_scan_payload_bad dest: frame_add_log)
  next
    case new
    with assms show ?thesis
      by (auto simp: pkt_scan_payload_new split: if_splits sum.splits dest!: frame_add_log)
  next
    case eof
    with assms show ?thesis
      by (auto simp: pkt_scan_payload_eof split: if_splits dest!: frame_add_log)
  next
    case mid
    with assms show ?thesis
      by (auto simp: pkt_scan_payload_mid dest: frame_add_log)
  qed
qed

lemma pkt_scan_log:
  "pkt_scan data s = Inr s' \<Longrightarrow> \<exists>l. fa_log s' = fa_log s @ l"
proof (induction data s rule: pkt_scan.induct)
  case (1 data s)
  from "1.prems" obtain s1 where p: "pkt_scan_payload (take 2048 data) s = Inr s1"
    and rest: "if length data > 2048 then pkt_scan (drop 2048 data) s1 = Inr s' else s' = s1"
    unfolding pkt_scan_Inr [of data] by blast
  from pkt_scan_payload_log [OF p] obtain l1 where l1: "fa_log s1 = fa_log s @ l1" by blast
  show ?case
  proof (cases "length data > 2048")
    case True
    with rest have "pkt_scan (drop 2048 data) s1 = Inr s'" by simp
    from "1.IH" [OF p True this] l1 show ?thesis by auto
  next
    case False
    with rest l1 show ?thesis by simp
  qed
qed

lemma pkt_scan_while_discarding:
  "discarding s \<Longrightarrow> pkt_scan data s = Inr s' \<Longrightarrow>
   FIRST_PACKET \<notin> set (drop (length (fa_log s)) (fa_log s')) \<Longrightarrow>
   frame_queue s' = frame_queue s \<and> cur_frame_start s' = cur_frame_start s
   \<and> enqueue_calls s' = enqueue_calls s \<and> discarding s'"
proof (induction data s rule: pkt_scan.induct)
  case (1 data s)
  from "1.prems"(2) obtain s1 where p: "pkt_scan_payload (take 2048 data) s = Inr s1"
    and rest: "if length data > 2048 then pkt_scan (drop 2048 data) s1 = Inr s' else s' = s1"
    unfolding pkt_scan_Inr [of data] by blast
  from payload_while_discarding [OF "1.prems"(1) p] obtain l1
    where l1: "fa_log s1 = fa_log s @ l1"
      and u1: "FIRST_PACKET \<notin> set l1 \<longrightarrow>
          frame_queue s1 = frame_queue s \<and> cur_frame_start s1 = cur_frame_start s
          \<and> enqueue_calls s1 = enqueue_calls s \<and> discarding s1"
    by auto
  show ?case
  proof (cases "length data > 2048")
    case False
    with rest have "s' = s1" by simp
    with l1 u1 "1.prems"(3) show ?thesis by auto
  next
    case True
    with rest have r2: "pkt_scan (drop 2048 data) s1 = Inr s'" by simp
    from pkt_scan_log [OF r2] obtain l2 where l2: "fa_log s' = fa_log s1 @ l2" by blast
    from "1.prems"(3) l1 l2 have nf1: "FIRST_PACKET \<notin> set l1" and nf2: "FIRST_PACKET \<notin> set l2"
      by simp_all
    from u1 nf1 have d1: "discarding s1" and same: "frame_queue s1 = frame_queue s"
      "cur_frame_start s1 = cur_frame_start s" "enqueue_calls s1 = enqueue_calls s"
      by simp_all
    from nf2 l2 have "FIRST_PACKET \<notin> set (drop (length (fa_log s1)) (fa_log s'))" by simp
    from "1.IH" [OF p True d1 r2 this] same show ?thesis by simp
  qed
qed

subsection \<open>Whole payloads that fit\<close>

lemma urb_inv_start:
  assumes "2 \<le> unat d" and "unat fs * unat d < 2 ^ 32"
  shows "urb_inv (start_transfers t fs d junk)"
proof -
  have "fq_inv (FrameQueue_new fs d junk)" by (rule fq_inv_new)
  moreover have "fq_mem_ok (FrameQueue_new fs d junk)" by (rule fq_mem_ok_new [OF assms])
  ultimately show ?thesis
    by (simp add: urb_inv_def start_transfers_def Let_def GetFrameBufferStart_def FrameQueue_new_def)
qed

lemma start_transfers_fields:
  "last_packet_type (start_transfers t fs d junk) = t"
  "last_pts (start_transfers t fs d junk) = 0"
  "last_fid (start_transfers t fs d junk) = 0"
  "cur_frame_start (start_transfers t fs d junk) = 0"
  "cur_frame_data_len (start_transfers t fs d junk) = 0"
  "frame_size (start_transfers t fs d junk) = fs"
  "frame_queue (start_transfers t fs d junk) = FrameQueue_new fs d junk"
  "fa_log (start_transfers t fs d junk) = []"
  "enqueue_calls (start_transfers t fs d junk) = 0"
  by (simp_all add: start_transfers_def Let_def GetFrameBufferStart_def)

lemma first_unit_fits:
  assumes inv: "urb_inv s" and len: "length u \<le> 2048" and hdr: "header_ok u"
    and new: "this_pts u \<noteq> last_pts s \<or> this_fid u \<noteq> last_fid s"
    and nmid: "last_packet_type s \<noteq> INTER_PACKET"
    and fit: "length u - 12 \<le> unat (frame_size s)"
  shows "\<exists>s'. pkt_scan u s = Inr s' \<and> urb_inv s'
     \<and> last_packet_type s' = FIRST_PACKET \<and> fa_log s' = fa_log s @ [FIRST_PACKET]
     \<and> last_pts s' = this_pts u \<and> last_fid s' = this_fid u \<and> frame_size s' = frame_size s
     \<and> frame_buffer (frame_queue s') =
          take (cur_frame_start s) (frame_buffer (frame_queue s)) @ drop 12 u
          @ drop (cur_frame_start s + (length u - 12)) (frame_buffer (frame_queue s))
     \<and> cur_frame_start s' = cur_frame_start s
     \<and> unat (cur_frame_data_len s') = length u - 12
     \<and> head (frame_queue s') = head (frame_queue s)
     \<and> tail (frame_queue s') = tail (frame_queue s)
     \<and> available (frame_queue s') = available (frame_queue s)
     \<and> enqueue_calls s' = enqueue_calls s"
proof -
  let ?s1 = "s\<lparr> last_pts := this_pts u, last_fid := this_fid u \<rparr>"
  have i1: "urb_inv ?s1" by (rule urb_inv_cong [OF inv]) simp_all
  have f1: "length (drop 12 u) \<le> unat (frame_size ?s1)" using fit by simp
  have run: "pkt_scan u s = frame_add FIRST_PACKET (drop 12 u) ?s1"
    unfolding pkt_scan_single [OF len] pkt_scan_payload_new [OF hdr new]
    using nmid by simp
  from frame_add_FIRST_fits [OF i1 f1] show ?thesis unfolding run by simp
qed

lemma last_unit_fits:
  assumes inv: "urb_inv s" and len: "length u \<le> 2048" and hdr: "header_ok u"
    and eof: "u ! 1 AND UVC_STREAM_EOF \<noteq> 0"
    and pts: "this_pts u = last_pts s" and fid: "this_fid u = last_fid s"
    and inframe: "last_packet_type s = FIRST_PACKET \<or> last_packet_type s = INTER_PACKET"
    and sum: "unat (cur_frame_data_len s) + (length u - 12) = unat (frame_size s)"
  shows "\<exists>s'. pkt_scan u s = Inr s' \<and> urb_inv s'
     \<and> last_packet_type s' = LAST_PACKET \<and> fa_log s' = fa_log s @ [LAST_PACKET]
     \<and> last_pts s' = 0 \<and> frame_size s' = frame_size s
     \<and> frame_buffer (frame_queue s') =
          take (cur_frame_start s + unat (cur_frame_data_len s)) (frame_buffer (frame_queue s))
          @ drop 12 u
          @ drop (cur_frame_start s + unat (cur_frame_data_len s) + (length u - 12))
              (frame_buffer (frame_queue s))
     \<and> cur_frame_start s' = fst (Enqueue (frame_queue s))
     \<and> head (frame_queue s') = head (snd (Enqueue (frame_queue s)))
     \<and> tail (frame_queue s') = tail (frame_queue s)
     \<and> available (frame_queue s') = available (snd (Enqueue (frame_queue s)))
     \<and> enqueue_calls s' = enqueue_calls s + 1"
proof -
  let ?s0 = "s\<lparr> last_pts := 0 \<rparr>"
  have i0: "urb_inv ?s0" by (rule urb_inv_cong [OF inv]) simp_all
  have inframe0: "last_packet_type ?s0 = FIRST_PACKET \<or> last_packet_type ?s0 = INTER_PACKET"
    using inframe by simp
  from hdr have l12: "12 \<le> length u" by (simp add: header_ok_def)
  have "unat (cur_frame_data_len s) + length (drop 12 u) < 2 ^ 32"
    using sum unsigned_less [of "frame_size s", where 'a = nat] by simp
  from unat_add_of_nat [OF this] sum
  have "unat (cur_frame_data_len s + of_nat (length (drop 12 u))) = unat (frame_size s)" by simp
  then have "cur_frame_data_len s + of_nat (length (drop 12 u)) = frame_size s"
    by (simp add: word_unat_eq_iff)
  then have eq: "cur_frame_data_len s + of_nat (length u) - 12 = frame_size s"
    unfolding payload_len_word [OF l12] .
  have fit: "unat (cur_frame_data_len ?s0) + length (drop 12 u) \<le> unat (frame_size ?s0)"
    using sum by simp
  have run: "pkt_scan u s = frame_add LAST_PACKET (drop 12 u) ?s0"
    unfolding pkt_scan_single [OF len] pkt_scan_payload_eof [OF hdr pts fid eof]
    using eq by simp
  from frame_add_LAST_fits [OF i0 inframe0 fit] show ?thesis unfolding run by auto
qed

subsection \<open>The concrete inputs evaluated\<close>

lemma zero_buf: "map zero_mem [0 ..< 8] = [0, 0, 0, 0, 0, 0, 0, 0]"
  by (simp add: upt_rec zero_mem_def)

lemma fresh4_eq:
  "fresh4 = \<lparr> last_packet_type = DISCARD_PACKET, last_pts = 0, last_fid = 0,
       cur_frame_start = 0, cur_frame_data_len = 0, frame_size = 4,
       frame_queue = \<lparr> fq_frame_size = 4, num_frames = 2,
                       frame_buffer = [0, 0, 0, 0, 0, 0, 0, 0],
                       head = 0, tail = 0, available = 0 \<rparr>,
       fa_log = [], enqueue_calls = 0 \<rparr>"
  by (simp add: fresh4_def start_transfers_def FrameQueue_new_def GetFrameBufferStart_def zero_buf)

lemma units_ok:
  "header_ok unit_first" "header_ok unit_mid" "header_ok unit_last" "header_ok unit_last_short"
  "header_ok unit_next" "header_ok unit_idle" "\<not> header_ok unit_bad"
  by (simp_all add: header_ok_def UVC_STREAM_ERR_def UVC_STREAM_PTS_def unit_first_def
      unit_mid_def unit_last_def unit_last_short_def unit_next_def unit_idle_def unit_bad_def)

lemma units_pts:
  "this_pts unit_first = 100" "this_pts unit_mid = 100" "this_pts unit_last = 100"
  "this_pts unit_last_short = 100" "this_pts unit_next = 200" "this_pts unit_idle = 0"
  by (simp_all add: this_pts_def unit_first_def
      unit_mid_def unit_last_def unit_last_short_def unit_next_def unit_idle_def)

lemma units_fid:
  "this_fid unit_first = 0" "this_fid unit_mid = 0" "this_fid unit_last = 0"
  "this_fid unit_last_short = 0" "this_fid unit_next = 0" "this_fid unit_idle = 0"
  by (simp_all add: this_fid_def UVC_STREAM_FID_def unit_first_def
      unit_mid_def unit_last_def unit_last_short_def unit_next_def unit_idle_def)

lemma units_eof:
  "unit_last ! 1 AND UVC_STREAM_EOF \<noteq> 0" "unit_last_short ! 1 AND UVC_STREAM_EOF \<noteq> 0"
  "unit_mid ! 1 AND UVC_STREAM_EOF = 0" "unit_idle ! 1 AND UVC_STREAM_EOF = 0"
  by (simp_all add: UVC_STREAM_EOF_def unit_mid_def unit_last_def unit_last_short_def unit_idle_def)

lemma units_len:
  "length unit_first = 14" "length unit_mid = 13" "length unit_last = 13"
  "length unit_last_short = 12" "length unit_next = 13" "length unit_idle = 13"
  "length unit_bad = 13"
  by (simp_all add: unit_first_def unit_mid_def unit_last_def unit_last_short_def
      unit_next_def unit_idle_def unit_bad_def)

lemma urb_inv_mid_state: "urb_inv mid_state"
  by (simp add: urb_inv_def fq_inv_def fq_mem_ok_def mid_state_def)

lemma urb_inv_fresh4: "urb_inv fresh4"
  unfolding fresh4_def by (rule urb_inv_start) simp_all

lemmas eval_defs =
  pkt_scan_payload_def frame_add_def frame_add_append_def memcpy_to_def Enqueue_def Let_def
  this_pts_def this_fid_def UVC_STREAM_ERR_def UVC_STREAM_PTS_def UVC_STREAM_EOF_def
  UVC_STREAM_FID_def word_less_nat_alt word_le_nat_alt

lemma first_state_eval:
  "pkt_scan unit_first fresh4 =
     Inr \<lparr> last_packet_type = FIRST_PACKET, last_pts = 100, last_fid = 0,
       cur_frame_start = 0, cur_frame_data_len = 2, frame_size = 4,
       frame_queue = \<lparr> fq_frame_size = 4, num_frames = 2,
                       frame_buffer = [1, 2, 0, 0, 0, 0, 0, 0],
                       head = 0, tail = 0, available = 0 \<rparr>,
       fa_log = [FIRST_PACKET], enqueue_calls = 0 \<rparr>"
  unfolding pkt_scan_single [of unit_first, unfolded units_len, simplified]
  by (simp add: eval_defs fresh4_eq unit_first_def)

lemma mid_state_eval:
  "pkt_scan unit_mid
     \<lparr> last_packet_type = FIRST_PACKET, last_pts = 100, last_fid = 0,
       cur_frame_start = 0, cur_frame_data_len = 2, frame_size = 4,
       frame_queue = \<lparr> fq_frame_size = 4, num_frames = 2,
                       frame_buffer = [1, 2, 0, 0, 0, 0, 0, 0],
                       head = 0, tail = 0, available = 0 \<rparr>,
       fa_log = [FIRST_PACKET], enqueue_calls = 0 \<rparr>
   = Inr mid_state"
  unfolding pkt_scan_single [of unit_mid, unfolded units_len, simplified]
  by (simp add: eval_defs mid_state_def unit_mid_def)

lemma mid_state_reached:
  "\<exists>s1. pkt_scan unit_first fresh4 = Inr s1 \<and> pkt_scan unit_mid s1 = Inr mid_state"
  using first_state_eval mid_state_eval by simp

lemma idle_eval:
  "pkt_scan unit_idle fresh4 = Inr (fresh4\<lparr> fa_log := [INTER_PACKET] \<rparr>)"
  unfolding pkt_scan_single [of unit_idle, unfolded units_len, simplified]
  by (simp add: eval_defs fresh4_eq unit_idle_def)

lemma full_state_reached:
  "transfers [unit_first, unit_mid, unit_last] fresh4 = Inr full_state"
  unfolding transfers.simps
    pkt_scan_single [of unit_first, unfolded units_len, simplified]
    pkt_scan_single [of unit_mid, unfolded units_len, simplified]
    pkt_scan_single [of unit_last, unfolded units_len, simplified]
  by (simp add: eval_defs fresh4_eq full_state_def unit_first_def unit_mid_def unit_last_def)

lemma depth0_eval:
  "pkt_scan unit_first (start_transfers DISCARD_PACKET 4 0 zero_mem) = Inl OutOfBounds"
  unfolding pkt_scan_single [of unit_first, unfolded units_len, simplified]
  by (simp add: eval_defs start_transfers_def FrameQueue_new_def GetFrameBufferStart_def
      unit_first_def)

lemma depth1_eval:
  "transfers [unit_first, unit_mid, unit_last] (start_transfers DISCARD_PACKET 4 1 zero_mem)
     = Inr \<lparr> last_packet_type = LAST_PACKET, last_pts = 0, last_fid = 0,
             cur_frame_start = 4, cur_frame_data_len = 0, frame_size = 4,
             frame_queue = \<lparr> fq_frame_size = 4, num_frames = 2,
                             frame_buffer = [1, 2, 3, 4],
                             head = 1, tail = 0, available = 1 \<rparr>,
             fa_log = [FIRST_PACKET, INTER_PACKET, LAST_PACKET], enqueue_calls = 1 \<rparr>"
  unfolding transfers.simps
    pkt_scan_single [of unit_first, unfolded units_len, simplified]
    pkt_scan_single [of unit_mid, unfolded units_len, simplified]
    pkt_scan_single [of unit_last, unfolded units_len, simplified]
  by (simp add: eval_defs start_transfers_def FrameQueue_new_def GetFrameBufferStart_def
      unit_first_def unit_mid_def unit_last_def max_def)

lemma depth1_fault:
  "transfers [unit_first, unit_mid, unit_last, unit_next]
     (start_transfers DISCARD_PACKET 4 1 zero_mem) = Inl OutOfBounds"
  unfolding transfers.simps
    pkt_scan_single [of unit_first, unfolded units_len, simplified]
    pkt_scan_single [of unit_mid, unfolded units_len, simplified]
    pkt_scan_single [of unit_last, unfolded units_len, simplified]
    pkt_scan_single [of unit_next, unfolded units_len, simplified]
  by (simp add: eval_defs start_transfers_def FrameQueue_new_def GetFrameBufferStart_def
      unit_first_def unit_mid_def unit_last_def unit_next_def max_def)

section \<open>The claims about reassembly\<close>

text \<open>
  C2: The pipeline is started afresh with a frame size of \<open>|P1| + |P2|\<close> (a queue
  depth of at least 2 whose allocation fits \<^verbatim>\<open>uint32_t\<close>). A payload with header
  length 12, flags PTS only, timestamp 100, toggle 0 and the bytes \<open>P1\<close>, followed by a
  payload with flags PTS and EOF, timestamp 100, toggle 0 and the bytes \<open>P2\<close>, are
  classified first and then last, \<^verbatim>\<open>Enqueue\<close> is called exactly once, the frame
  accumulated in the slot is \<open>P1\<close> followed by \<open>P2\<close>, and \<^verbatim>\<open>Dequeue\<close> returns
  exactly these bytes. The two payloads arrive in two transfers, or in one transfer when
  the first payload fills its 2048 bytes.
\<close>

theorem two_units_make_one_frame:
  assumes d2: "2 \<le> unat d" and nov: "unat fs * unat d < 2 ^ 32"
    and size: "length P1 + length P2 = unat fs"
    and n1: "length P1 \<le> 2036" and n2: "length P2 \<le> 2036"
    and h1: "length h1 = 6" and h2: "length h2 = 6"
  shows "\<exists>s1 s2.
       pkt_scan (12 # 4 # 100 # 0 # 0 # 0 # h1 @ P1) (start_transfers DISCARD_PACKET fs d junk) = Inr s1
     \<and> fa_log s1 = [FIRST_PACKET]
     \<and> pkt_scan (12 # 6 # 100 # 0 # 0 # 0 # h2 @ P2) s1 = Inr s2
     \<and> fa_log s2 = [FIRST_PACKET, LAST_PACKET]
     \<and> enqueue_calls s1 = 0 \<and> enqueue_calls s2 = 1
     \<and> take (unat fs) (frame_buffer (frame_queue s2)) = P1 @ P2
     \<and> available (frame_queue s2) = 1
     \<and> (\<exists>q'. Dequeue (frame_queue s2) = Returns (P1 @ P2, q'))
     \<and> (length P1 = 2036 \<longrightarrow>
          pkt_scan ((12 # 4 # 100 # 0 # 0 # 0 # h1 @ P1) @ (12 # 6 # 100 # 0 # 0 # 0 # h2 @ P2))
            (start_transfers DISCARD_PACKET fs d junk) = Inr s2)"
proof -
  let ?u1 = "12 # 4 # 100 # 0 # 0 # 0 # h1 @ P1" and ?u2 = "12 # 6 # 100 # 0 # 0 # 0 # h2 @ P2"
  let ?s0 = "start_transfers DISCARD_PACKET fs d junk"
  let ?buf = "frame_buffer (FrameQueue_new fs d junk)"
  note sf = start_transfers_fields [of DISCARD_PACKET fs d junk]
  have i0: "urb_inv ?s0" by (rule urb_inv_start [OF d2 nov])
  have len1: "length ?u1 \<le> 2048" and len2: "length ?u2 \<le> 2048" using n1 n2 h1 h2 by simp_all
  have hdr1: "header_ok ?u1" and hdr2: "header_ok ?u2" using h1 h2 by (simp_all add: hdr_first hdr_last)
  have p1: "drop 12 ?u1 = P1" and p2: "drop 12 ?u2 = P2" using h1 h2 by simp_all
  have l1: "length ?u1 - 12 = length P1" and l2: "length ?u2 - 12 = length P2"
    using h1 h2 by simp_all
  have new: "this_pts ?u1 \<noteq> last_pts ?s0 \<or> this_fid ?u1 \<noteq> last_fid ?s0"
    by (simp add: pts_100 sf)
  have nmid: "last_packet_type ?s0 \<noteq> INTER_PACKET" by (simp add: sf)
  have fit1: "length ?u1 - 12 \<le> unat (frame_size ?s0)" unfolding l1 using size by (simp add: sf)
  from first_unit_fits [OF i0 len1 hdr1 new nmid fit1] obtain s1
    where s1: "pkt_scan ?u1 ?s0 = Inr s1" "urb_inv s1" "last_packet_type s1 = FIRST_PACKET"
      "fa_log s1 = [FIRST_PACKET]" "last_pts s1 = 100" "last_fid s1 = 0" "frame_size s1 = fs"
      "frame_buffer (frame_queue s1) = P1 @ drop (length P1) ?buf"
      "cur_frame_start s1 = 0" "unat (cur_frame_data_len s1) = length P1"
      "head (frame_queue s1) = 0" "tail (frame_queue s1) = 0" "available (frame_queue s1) = 0"
      "enqueue_calls s1 = 0"
    unfolding p1 l1 by (auto simp: sf pts_100 fid_4 FrameQueue_new_def)
  have pts2: "this_pts ?u2 = last_pts s1" and fid2: "this_fid ?u2 = last_fid s1"
    by (simp_all add: pts_100 fid_4 s1)
  have eof2: "?u2 ! 1 AND UVC_STREAM_EOF \<noteq> 0" by (simp add: UVC_STREAM_EOF_def)
  have inframe: "last_packet_type s1 = FIRST_PACKET \<or> last_packet_type s1 = INTER_PACKET"
    by (simp add: s1)
  have sum: "unat (cur_frame_data_len s1) + (length ?u2 - 12) = unat (frame_size s1)"
    unfolding l2 using size by (simp add: s1)
  from last_unit_fits [OF s1(2) len2 hdr2 eof2 pts2 fid2 inframe sum] obtain s2
    where s2: "pkt_scan ?u2 s1 = Inr s2" "urb_inv s2" "fa_log s2 = [FIRST_PACKET, LAST_PACKET]"
      "frame_size s2 = fs"
      "frame_buffer (frame_queue s2) =
          take (length P1) (frame_buffer (frame_queue s1)) @ P2
          @ drop (length P1 + length P2) (frame_buffer (frame_queue s1))"
      "tail (frame_queue s2) = 0"
      "available (frame_queue s2) = available (snd (Enqueue (frame_queue s1)))"
      "enqueue_calls s2 = 1"
    unfolding p2 l2 by (auto simp: s1)
  have content: "take (unat fs) (frame_buffer (frame_queue s2)) = P1 @ P2"
    unfolding s2(5) s1(8) size [symmetric] by simp
  from s1(2) have "fq_inv (frame_queue s1)" by (simp add: urb_inv_def)
  then have nf2: "2 \<le> unat (num_frames (frame_queue s1))" by (simp add: fq_inv_def)
  have "\<not> available (frame_queue s1) \<ge> num_frames (frame_queue s1) - 1"
    unfolding full_iff [OF nf2] using nf2 by (simp add: s1)
  then have av: "available (frame_queue s2) = 1"
    unfolding s2(7) by (simp add: Enqueue_def Let_def s1)
  from s2(2) have m2: "fq_mem_ok (frame_queue s2)" and f2: "fq_frame_size (frame_queue s2) = fs"
    and i2: "fq_inv (frame_queue s2)"
    by (simp_all add: urb_inv_def s2)
  from i2 have "2 \<le> unat (num_frames (frame_queue s2))" by (simp add: fq_inv_def)
  then have "unat fs * 1 \<le> unat fs * unat (num_frames (frame_queue s2))"
    by (intro mult_le_mono2) simp
  with m2 f2 have "unat fs \<le> length (frame_buffer (frame_queue s2))"
    by (simp add: fq_mem_ok_def)
  then have dq: "\<exists>q'. Dequeue (frame_queue s2) = Returns (P1 @ P2, q')"
    using av content by (simp add: Dequeue_def memcpy_from_def f2 s2)
  have both: "pkt_scan (?u1 @ ?u2) ?s0 = Inr s2" if full: "length P1 = 2036"
  proof -
    from full h1 have l: "length ?u1 = 2048" by simp
    then have tk: "take 2048 (?u1 @ ?u2) = ?u1" and dr: "drop 2048 (?u1 @ ?u2) = ?u2"
      and lg: "length (?u1 @ ?u2) > 2048"
      by simp_all
    have pp: "pkt_scan_payload ?u1 ?s0 = Inr s1"
      using s1(1) unfolding pkt_scan_single [OF len1] .
    have "\<exists>t. pkt_scan_payload (take 2048 (?u1 @ ?u2)) ?s0 = Inr t
        \<and> (if length (?u1 @ ?u2) > 2048 then pkt_scan (drop 2048 (?u1 @ ?u2)) t = Inr s2
            else s2 = t)"
      unfolding tk dr using lg pp s2(1) by (intro exI [of _ s1]) simp
    then show ?thesis unfolding pkt_scan_Inr [of "?u1 @ ?u2"] .
  qed
  from s1 s2 content av dq both show ?thesis by blast
qed

theorem two_units_make_one_frame_witness:
  "2 \<le> unat (2 :: u32) \<and> unat (4 :: u32) * unat (2 :: u32) < 2 ^ 32
   \<and> length [1, 2 :: u8] + length [3, 4 :: u8] = unat (4 :: u32)
   \<and> (\<exists>s1 s2.
       pkt_scan (12 # 4 # 100 # 0 # 0 # 0 # [0, 0, 0, 0, 0, 0] @ [1, 2])
         (start_transfers DISCARD_PACKET 4 2 zero_mem) = Inr s1
     \<and> fa_log s1 = [FIRST_PACKET]
     \<and> pkt_scan (12 # 6 # 100 # 0 # 0 # 0 # [0, 0, 0, 0, 0, 0] @ [3, 4]) s1 = Inr s2
     \<and> fa_log s2 = [FIRST_PACKET, LAST_PACKET]
     \<and> enqueue_calls s2 = 1
     \<and> take (unat (4 :: u32)) (frame_buffer (frame_queue s2)) = [1, 2] @ [3, 4]
     \<and> (\<exists>q'. Dequeue (frame_queue s2) = Returns ([1, 2] @ [3, 4], q')))"
proof -
  have a: "2 \<le> unat (2 :: u32)" and b: "unat (4 :: u32) * unat (2 :: u32) < 2 ^ 32"
    and c: "length [1, 2 :: u8] + length [3, 4 :: u8] = unat (4 :: u32)"
    and d: "length [1, 2 :: u8] \<le> 2036" "length [3, 4 :: u8] \<le> 2036"
    and e: "length [0, 0, 0, 0, 0, 0 :: u8] = 6"
    by simp_all
  from two_units_make_one_frame [OF a b c d e e, of zero_mem] a b c show ?thesis
    by blast
qed

text \<open>
  C5: The last recorded packet type is middle, and a payload with a good header has a
  timestamp or a toggle bit that differs from the stored one. Then \<^verbatim>\<open>pkt_scan\<close>
  first finalizes the frame in progress as last with no payload, and then starts a new
  frame classified first with bytes 12 onward of this payload. In an active pipeline
  the finalization calls \<^verbatim>\<open>Enqueue\<close> once, the new frame is written to the slot
  \<^verbatim>\<open>Enqueue\<close> returned, and, the payload being no longer than a frame, the frame
  begins with these bytes. (The driver configures frames of 153600 or 614400 bytes, and a
  payload has at most 2036.)
\<close>

theorem boundary_finalizes_then_starts:
  assumes len: "length u \<le> 2048"
    and hdr: "header_ok u"
    and new: "this_pts u \<noteq> last_pts s \<or> this_fid u \<noteq> last_fid s"
    and mid: "last_packet_type s = INTER_PACKET"
  shows "pkt_scan u s =
       (case frame_add LAST_PACKET [] s of
          Inl e \<Rightarrow> Inl e
        | Inr s1 \<Rightarrow> frame_add FIRST_PACKET (drop 12 u)
                     (s1\<lparr> last_pts := this_pts u, last_fid := this_fid u \<rparr>))
     \<and> (urb_inv s \<longrightarrow>
          (\<exists>s'. pkt_scan u s = Inr s'
             \<and> fa_log s' = fa_log s @ [LAST_PACKET, FIRST_PACKET]
             \<and> enqueue_calls s' = enqueue_calls s + 1
             \<and> head (frame_queue s') = head (snd (Enqueue (frame_queue s)))
             \<and> tail (frame_queue s') = tail (frame_queue s)
             \<and> available (frame_queue s') = available (snd (Enqueue (frame_queue s)))
             \<and> cur_frame_start s' = fst (Enqueue (frame_queue s))
             \<and> last_pts s' = this_pts u \<and> last_fid s' = this_fid u
             \<and> (length u - 12 \<le> unat (frame_size s) \<longrightarrow>
                  last_packet_type s' = FIRST_PACKET
                  \<and> unat (cur_frame_data_len s') = length u - 12
                  \<and> take (length u - 12)
                       (drop (cur_frame_start s') (frame_buffer (frame_queue s')))
                     = drop 12 u)))"
proof (intro conjI impI)
  show run: "pkt_scan u s =
       (case frame_add LAST_PACKET [] s of
          Inl e \<Rightarrow> Inl e
        | Inr s1 \<Rightarrow> frame_add FIRST_PACKET (drop 12 u)
                     (s1\<lparr> last_pts := this_pts u, last_fid := this_fid u \<rparr>))"
    unfolding pkt_scan_single [OF len] pkt_scan_payload_new [OF hdr new]
    using mid by simp
  assume inv: "urb_inv s"
  have inframe: "last_packet_type s = FIRST_PACKET \<or> last_packet_type s = INTER_PACKET"
    using mid by simp
  have f0: "unat (cur_frame_data_len s) + length ([] :: u8 list) \<le> unat (frame_size s)"
    using inv by (simp add: urb_inv_def)
  from frame_add_LAST_fits [OF inv inframe f0] obtain s1
    where s1: "frame_add LAST_PACKET [] s = Inr s1" "urb_inv s1"
      "fa_log s1 = fa_log s @ [LAST_PACKET]" "frame_size s1 = frame_size s"
      "cur_frame_start s1 = fst (Enqueue (frame_queue s))"
      "head (frame_queue s1) = head (snd (Enqueue (frame_queue s)))"
      "tail (frame_queue s1) = tail (frame_queue s)"
      "available (frame_queue s1) = available (snd (Enqueue (frame_queue s)))"
      "enqueue_calls s1 = enqueue_calls s + 1"
    by blast
  let ?s1 = "s1\<lparr> last_pts := this_pts u, last_fid := this_fid u \<rparr>"
  have i1: "urb_inv ?s1" by (rule urb_inv_cong [OF s1(2)]) simp_all
  have d: "length (drop 12 u) \<le> 2048" using len by simp
  from frame_add_FIRST_effects [OF i1 d] obtain s'
    where s': "frame_add FIRST_PACKET (drop 12 u) ?s1 = Inr s'"
      "fa_log s' = fa_log ?s1 @ [FIRST_PACKET]"
      "last_pts s' = last_pts ?s1" "last_fid s' = last_fid ?s1"
      "cur_frame_start s' = cur_frame_start ?s1"
      "head (frame_queue s') = head (frame_queue ?s1)"
      "tail (frame_queue s') = tail (frame_queue ?s1)"
      "available (frame_queue s') = available (frame_queue ?s1)"
      "enqueue_calls s' = enqueue_calls ?s1"
      "length (drop 12 u) \<le> unat (frame_size ?s1) \<longrightarrow>
          last_packet_type s' = FIRST_PACKET
          \<and> unat (cur_frame_data_len s') = length (drop 12 u)
          \<and> take (length (drop 12 u)) (drop (cur_frame_start s') (frame_buffer (frame_queue s')))
              = drop 12 u"
    by blast
  have "pkt_scan u s = Inr s'" unfolding run using s1(1) s'(1) by simp
  with s1 s' show "\<exists>s'. pkt_scan u s = Inr s'
             \<and> fa_log s' = fa_log s @ [LAST_PACKET, FIRST_PACKET]
             \<and> enqueue_calls s' = enqueue_calls s + 1
             \<and> head (frame_queue s') = head (snd (Enqueue (frame_queue s)))
             \<and> tail (frame_queue s') = tail (frame_queue s)
             \<and> available (frame_queue s') = available (snd (Enqueue (frame_queue s)))
             \<and> cur_frame_start s' = fst (Enqueue (frame_queue s))
             \<and> last_pts s' = this_pts u \<and> last_fid s' = this_fid u
             \<and> (length u - 12 \<le> unat (frame_size s) \<longrightarrow>
                  last_packet_type s' = FIRST_PACKET
                  \<and> unat (cur_frame_data_len s') = length u - 12
                  \<and> take (length u - 12)
                       (drop (cur_frame_start s') (frame_buffer (frame_queue s')))
                     = drop 12 u)"
    by simp
qed

theorem boundary_finalizes_then_starts_witness:
  "length unit_next \<le> 2048 \<and> header_ok unit_next
   \<and> this_pts unit_next \<noteq> last_pts mid_state
   \<and> last_packet_type mid_state = INTER_PACKET
   \<and> urb_inv mid_state
   \<and> length unit_next - 12 \<le> unat (frame_size mid_state)
   \<and> (\<exists>s'. pkt_scan unit_next mid_state = Inr s'
        \<and> fa_log s' = [FIRST_PACKET, INTER_PACKET, LAST_PACKET, FIRST_PACKET]
        \<and> enqueue_calls s' = 1
        \<and> available (frame_queue s') = 1
        \<and> cur_frame_start s' = 4
        \<and> last_packet_type s' = FIRST_PACKET
        \<and> take 1 (drop 4 (frame_buffer (frame_queue s'))) = [5]
        \<and> last_pts s' = 200)"
proof -
  have a: "urb_inv mid_state" by (rule urb_inv_mid_state)
  have b: "length unit_next \<le> 2048" by (simp add: units_len)
  have c: "header_ok unit_next" by (rule units_ok)
  have d: "this_pts unit_next \<noteq> last_pts mid_state \<or> this_fid unit_next \<noteq> last_fid mid_state"
    by (simp add: units_pts mid_state_def)
  have e: "last_packet_type mid_state = INTER_PACKET" by (simp add: mid_state_def)
  have f: "length unit_next - 12 \<le> unat (frame_size mid_state)"
    by (simp add: units_len mid_state_def)
  have g: "drop 12 unit_next = [5]" by (simp add: unit_next_def)
  have h: "Enqueue (frame_queue mid_state)
      = (4, (frame_queue mid_state)\<lparr> head := 1, available := 1 \<rparr>)"
    by (simp add: Enqueue_def mid_state_def word_le_nat_alt)
  note t = boundary_finalizes_then_starts [OF b c d e, THEN conjunct2, THEN mp, OF a]
  from t f have "\<exists>s'. pkt_scan unit_next mid_state = Inr s'
        \<and> fa_log s' = [FIRST_PACKET, INTER_PACKET, LAST_PACKET, FIRST_PACKET]
        \<and> enqueue_calls s' = 1
        \<and> available (frame_queue s') = 1
        \<and> cur_frame_start s' = 4
        \<and> last_packet_type s' = FIRST_PACKET
        \<and> take 1 (drop 4 (frame_buffer (frame_queue s'))) = [5]
        \<and> last_pts s' = 200"
    unfolding g h units_len units_pts by (auto simp: mid_state_def)
  moreover have "this_pts unit_next \<noteq> last_pts mid_state"
    by (simp add: units_pts mid_state_def)
  ultimately show ?thesis using a b c e f by blast
qed

text \<open>
  C6: A payload with a good header has its end-of-frame bit set, and its timestamp and
  toggle are the stored ones. If the accumulated length plus the length of its payload
  is not the frame size, it is classified discard, nothing is enqueued and the queue is
  left as it is. Whenever the scan of such a payload enqueues a frame, the lengths add
  up to the frame size exactly and the payload was classified last. And when they do add
  up and a frame is in progress, the frame is finalized and enqueued once, the payload
  appended to what was accumulated.
\<close>

theorem eof_unit_enqueued_only_on_exact_size:
  assumes hdr: "header_ok u"
    and len: "length u \<le> 2048"
    and eof: "u ! 1 AND UVC_STREAM_EOF \<noteq> 0"
    and pts: "this_pts u = last_pts s"
    and fid: "this_fid u = last_fid s"
  shows "(cur_frame_data_len s + of_nat (length u) - 12 \<noteq> frame_size s \<longrightarrow>
           (\<exists>s'. pkt_scan u s = Inr s' \<and> fa_log s' = fa_log s @ [DISCARD_PACKET]
              \<and> enqueue_calls s' = enqueue_calls s \<and> frame_queue s' = frame_queue s
              \<and> cur_frame_start s' = cur_frame_start s \<and> discarding s'))
     \<and> (\<forall>s'. pkt_scan u s = Inr s' \<and> enqueue_calls s' \<noteq> enqueue_calls s \<longrightarrow>
           cur_frame_data_len s + of_nat (length u) - 12 = frame_size s
           \<and> fa_log s' = fa_log s @ [LAST_PACKET]
           \<and> enqueue_calls s' = enqueue_calls s + 1
           \<and> last_packet_type s' = LAST_PACKET)
     \<and> (urb_inv s \<and> (last_packet_type s = FIRST_PACKET \<or> last_packet_type s = INTER_PACKET)
          \<and> cur_frame_data_len s + of_nat (length u) - 12 = frame_size s \<longrightarrow>
           (\<exists>s'. pkt_scan u s = Inr s' \<and> fa_log s' = fa_log s @ [LAST_PACKET]
              \<and> enqueue_calls s' = enqueue_calls s + 1
              \<and> last_packet_type s' = LAST_PACKET
              \<and> take (unat (frame_size s))
                   (drop (cur_frame_start s) (frame_buffer (frame_queue s')))
                 = take (unat (cur_frame_data_len s))
                     (drop (cur_frame_start s) (frame_buffer (frame_queue s)))
                   @ drop 12 u))"
proof (intro conjI impI allI)
  let ?s0 = "s\<lparr> last_pts := 0 \<rparr>"
  note run = pkt_scan_single [OF len] pkt_scan_payload_eof [OF hdr pts fid eof]
  {
    assume ne: "cur_frame_data_len s + of_nat (length u) - 12 \<noteq> frame_size s"
    from frame_add_DISCARD [of ?s0] ne
    show "\<exists>s'. pkt_scan u s = Inr s' \<and> fa_log s' = fa_log s @ [DISCARD_PACKET]
              \<and> enqueue_calls s' = enqueue_calls s \<and> frame_queue s' = frame_queue s
              \<and> cur_frame_start s' = cur_frame_start s \<and> discarding s'"
      unfolding run by auto
  }
  {
    fix s' assume a: "pkt_scan u s = Inr s' \<and> enqueue_calls s' \<noteq> enqueue_calls s"
    show eq: "cur_frame_data_len s + of_nat (length u) - 12 = frame_size s"
    proof (rule ccontr)
      assume ne: "cur_frame_data_len s + of_nat (length u) - 12 \<noteq> frame_size s"
      from frame_add_DISCARD [of ?s0] ne a show False
        unfolding run by auto
    qed
    with a have fa: "frame_add LAST_PACKET (drop 12 u) ?s0 = Inr s'"
      unfolding run by simp
    from frame_add_log [OF fa] show "fa_log s' = fa_log s @ [LAST_PACKET]" by simp
    from frame_add_enqueue_calls [OF fa] a
    show "enqueue_calls s' = enqueue_calls s + 1" "last_packet_type s' = LAST_PACKET"
      by simp_all
  }
  {
    assume a: "urb_inv s \<and> (last_packet_type s = FIRST_PACKET \<or> last_packet_type s = INTER_PACKET)
          \<and> cur_frame_data_len s + of_nat (length u) - 12 = frame_size s"
    then have inv: "urb_inv s" and eq: "cur_frame_data_len s + of_nat (length u) - 12 = frame_size s"
      by simp_all
    have i0: "urb_inv ?s0" by (rule urb_inv_cong [OF inv]) simp_all
    have inframe: "last_packet_type ?s0 = FIRST_PACKET \<or> last_packet_type ?s0 = INTER_PACKET"
      using a by simp
    from hdr have l12: "12 \<le> length u" by (simp add: header_ok_def)
    have w: "cur_frame_data_len s + of_nat (length (drop 12 u)) = frame_size s"
      unfolding payload_len_word [OF l12] by (rule eq)
    from inv have "unat (cur_frame_data_len s) \<le> unat (frame_size s)"
      by (simp add: urb_inv_def)
    with urb_inv_bounds(1) [OF inv] len
    have "unat (cur_frame_data_len s) + length (drop 12 u) < 2 ^ 32" by simp
    from unat_add_of_nat [OF this] w
    have sum: "unat (cur_frame_data_len s) + length (drop 12 u) = unat (frame_size s)" by simp
    then have fit: "unat (cur_frame_data_len ?s0) + length (drop 12 u) \<le> unat (frame_size ?s0)"
      by simp
    from frame_add_LAST_fits [OF i0 inframe fit] obtain s'
      where s': "frame_add LAST_PACKET (drop 12 u) ?s0 = Inr s'"
        "last_packet_type s' = LAST_PACKET" "fa_log s' = fa_log ?s0 @ [LAST_PACKET]"
        "frame_buffer (frame_queue s') =
          take (cur_frame_start ?s0 + unat (cur_frame_data_len ?s0)) (frame_buffer (frame_queue ?s0))
          @ drop 12 u
          @ drop (cur_frame_start ?s0 + unat (cur_frame_data_len ?s0) + length (drop 12 u))
              (frame_buffer (frame_queue ?s0))"
        "enqueue_calls s' = enqueue_calls ?s0 + 1"
      by blast
    have inb: "cur_frame_start s + unat (cur_frame_data_len s) + length (drop 12 u)
        \<le> length (frame_buffer (frame_queue s))"
      using urb_inv_bounds(2) [OF inv] sum by simp
    have content: "take (unat (frame_size s))
                   (drop (cur_frame_start s) (frame_buffer (frame_queue s')))
                 = take (unat (cur_frame_data_len s))
                     (drop (cur_frame_start s) (frame_buffer (frame_queue s)))
                   @ drop 12 u"
      using written_frame [OF inb] unfolding s'(4) sum [symmetric] by simp
    from s' content eq
    show "\<exists>s'. pkt_scan u s = Inr s' \<and> fa_log s' = fa_log s @ [LAST_PACKET]
              \<and> enqueue_calls s' = enqueue_calls s + 1
              \<and> last_packet_type s' = LAST_PACKET
              \<and> take (unat (frame_size s))
                   (drop (cur_frame_start s) (frame_buffer (frame_queue s')))
                 = take (unat (cur_frame_data_len s))
                     (drop (cur_frame_start s) (frame_buffer (frame_queue s)))
                   @ drop 12 u"
      unfolding run by simp
  }
qed

theorem eof_unit_enqueued_only_on_exact_size_witness:
  "header_ok unit_last_short \<and> length unit_last_short \<le> 2048
   \<and> unit_last_short ! 1 AND UVC_STREAM_EOF \<noteq> 0
   \<and> this_pts unit_last_short = last_pts mid_state
   \<and> this_fid unit_last_short = last_fid mid_state
   \<and> cur_frame_data_len mid_state + of_nat (length unit_last_short) - 12 \<noteq> frame_size mid_state
   \<and> (\<exists>s'. pkt_scan unit_last_short mid_state = Inr s'
         \<and> fa_log s' = [FIRST_PACKET, INTER_PACKET, DISCARD_PACKET]
         \<and> enqueue_calls s' = 0 \<and> frame_queue s' = frame_queue mid_state)
   \<and> header_ok unit_last \<and> length unit_last \<le> 2048
   \<and> unit_last ! 1 AND UVC_STREAM_EOF \<noteq> 0
   \<and> this_pts unit_last = last_pts mid_state \<and> this_fid unit_last = last_fid mid_state
   \<and> urb_inv mid_state
   \<and> (last_packet_type mid_state = FIRST_PACKET \<or> last_packet_type mid_state = INTER_PACKET)
   \<and> cur_frame_data_len mid_state + of_nat (length unit_last) - 12 = frame_size mid_state
   \<and> (\<exists>s'. pkt_scan unit_last mid_state = Inr s'
         \<and> enqueue_calls s' \<noteq> enqueue_calls mid_state
         \<and> fa_log s' = [FIRST_PACKET, INTER_PACKET, LAST_PACKET]
         \<and> enqueue_calls s' = 1
         \<and> take 4 (frame_buffer (frame_queue s')) = [1, 2, 3, 4])"
proof -
  have a3: "unit_last_short ! 1 AND UVC_STREAM_EOF \<noteq> 0" by (rule units_eof)
  have b3: "unit_last ! 1 AND UVC_STREAM_EOF \<noteq> 0" by (rule units_eof)
  have a1: "header_ok unit_last_short" and a2: "length unit_last_short \<le> 2048"
    and a4: "this_pts unit_last_short = last_pts mid_state"
    and a5: "this_fid unit_last_short = last_fid mid_state"
    and a6: "cur_frame_data_len mid_state + of_nat (length unit_last_short) - 12
        \<noteq> frame_size mid_state"
    by (simp_all add: units_ok units_len units_pts units_fid mid_state_def)
  have b1: "header_ok unit_last" and b2: "length unit_last \<le> 2048"
    and b4: "this_pts unit_last = last_pts mid_state"
    and b5: "this_fid unit_last = last_fid mid_state"
    and b7: "last_packet_type mid_state = FIRST_PACKET \<or> last_packet_type mid_state = INTER_PACKET"
    and b8: "cur_frame_data_len mid_state + of_nat (length unit_last) - 12 = frame_size mid_state"
    by (simp_all add: units_ok units_len units_pts units_fid mid_state_def)
  have b6: "urb_inv mid_state" by (rule urb_inv_mid_state)
  from eof_unit_enqueued_only_on_exact_size [OF a1 a2 a3 a4 a5] a6
  have short: "\<exists>s'. pkt_scan unit_last_short mid_state = Inr s'
         \<and> fa_log s' = [FIRST_PACKET, INTER_PACKET, DISCARD_PACKET]
         \<and> enqueue_calls s' = 0 \<and> frame_queue s' = frame_queue mid_state"
    by (auto simp: mid_state_def)
  have g: "drop 12 unit_last = [4]" by (simp add: unit_last_def)
  from eof_unit_enqueued_only_on_exact_size [OF b1 b2 b3 b4 b5] b6 b7 b8
  have "\<exists>s'. pkt_scan unit_last mid_state = Inr s' \<and> fa_log s' = fa_log mid_state @ [LAST_PACKET]
              \<and> enqueue_calls s' = enqueue_calls mid_state + 1
              \<and> last_packet_type s' = LAST_PACKET
              \<and> take (unat (frame_size mid_state))
                   (drop (cur_frame_start mid_state) (frame_buffer (frame_queue s')))
                 = take (unat (cur_frame_data_len mid_state))
                     (drop (cur_frame_start mid_state) (frame_buffer (frame_queue mid_state)))
                   @ drop 12 unit_last"
    by blast
  then have exact: "\<exists>s'. pkt_scan unit_last mid_state = Inr s'
         \<and> enqueue_calls s' \<noteq> enqueue_calls mid_state
         \<and> fa_log s' = [FIRST_PACKET, INTER_PACKET, LAST_PACKET]
         \<and> enqueue_calls s' = 1
         \<and> take 4 (frame_buffer (frame_queue s')) = [1, 2, 3, 4]"
    unfolding g by (auto simp: mid_state_def)
  from a1 a2 a3 a4 a5 a6 short b1 b2 b3 b4 b5 b6 b7 b8 exact show ?thesis by blast
qed

text \<open>
  C7: A payload with a bad header (shorter than 12 bytes, header length not 12, error
  bit, no timestamp) is classified discard and changes neither the frame buffer, nor the
  accumulated length, nor the queue, and \<^verbatim>\<open>Enqueue\<close> is not called. After any payload
  classified discard the scan is between frames. From there, as long as no payload is
  classified first, no byte is written to the frame buffer, the queue and the write
  pointer stay as they are, \<^verbatim>\<open>Enqueue\<close> is never called, and the scan remains between
  frames. Under the invariant of an active pipeline the scan of a transfer always returns.
\<close>

theorem discard_suppresses_writes:
  "(\<not> header_ok u \<longrightarrow>
      (\<exists>s'. pkt_scan_payload u s = Inr s' \<and> fa_log s' = fa_log s @ [DISCARD_PACKET]
         \<and> frame_queue s' = frame_queue s \<and> cur_frame_start s' = cur_frame_start s
         \<and> cur_frame_data_len s' = cur_frame_data_len s
         \<and> enqueue_calls s' = enqueue_calls s \<and> discarding s'))
   \<and> (\<forall>s'. pkt_scan_payload u s = Inr s' \<and> fa_log s' = fa_log s @ [DISCARD_PACKET] \<longrightarrow>
         discarding s' \<and> frame_queue s' = frame_queue s
         \<and> cur_frame_start s' = cur_frame_start s \<and> enqueue_calls s' = enqueue_calls s)
   \<and> (\<forall>s'. discarding s \<and> pkt_scan data s = Inr s'
            \<and> FIRST_PACKET \<notin> set (drop (length (fa_log s)) (fa_log s')) \<longrightarrow>
         frame_queue s' = frame_queue s \<and> cur_frame_start s' = cur_frame_start s
         \<and> enqueue_calls s' = enqueue_calls s \<and> discarding s')
   \<and> (urb_inv s \<longrightarrow> (\<exists>s'. pkt_scan data s = Inr s'))"
proof (intro conjI impI allI)
  assume bad: "\<not> header_ok u"
  from frame_add_DISCARD [of s]
  show "\<exists>s'. pkt_scan_payload u s = Inr s' \<and> fa_log s' = fa_log s @ [DISCARD_PACKET]
         \<and> frame_queue s' = frame_queue s \<and> cur_frame_start s' = cur_frame_start s
         \<and> cur_frame_data_len s' = cur_frame_data_len s
         \<and> enqueue_calls s' = enqueue_calls s \<and> discarding s'"
    unfolding pkt_scan_payload_bad [OF bad] by blast
next
  fix s' assume a: "pkt_scan_payload u s = Inr s' \<and> fa_log s' = fa_log s @ [DISCARD_PACKET]"
  then have r: "pkt_scan_payload u s = Inr s'" and l: "fa_log s' = fa_log s @ [DISCARD_PACKET]"
    by simp_all
  consider (bad) "\<not> header_ok u"
    | (new) "header_ok u" "this_pts u \<noteq> last_pts s \<or> this_fid u \<noteq> last_fid s"
    | (eof) "header_ok u" "this_pts u = last_pts s" "this_fid u = last_fid s"
        "u ! 1 AND UVC_STREAM_EOF \<noteq> 0"
    | (mid) "header_ok u" "this_pts u = last_pts s" "this_fid u = last_fid s"
        "u ! 1 AND UVC_STREAM_EOF = 0"
    by blast
  then have "discarding s' \<and> frame_queue s' = frame_queue s
         \<and> cur_frame_start s' = cur_frame_start s \<and> enqueue_calls s' = enqueue_calls s"
  proof cases
    case bad
    from frame_add_DISCARD [of s] r show ?thesis
      unfolding pkt_scan_payload_bad [OF bad] by auto
  next
    case new
    from r obtain s1 where "frame_add FIRST_PACKET (drop 12 u)
        (s1\<lparr> last_pts := this_pts u, last_fid := this_fid u \<rparr>) = Inr s'"
      unfolding pkt_scan_payload_new [OF new] by (auto split: if_splits sum.splits)
    from frame_add_log [OF this] l show ?thesis by simp
  next
    case eof
    show ?thesis
    proof (cases "cur_frame_data_len s + of_nat (length u) - 12 \<noteq> frame_size s")
      case True
      from frame_add_DISCARD [of "s\<lparr> last_pts := 0 \<rparr>"] r True show ?thesis
        unfolding pkt_scan_payload_eof [OF eof] by auto
    next
      case False
      with r have "frame_add LAST_PACKET (drop 12 u) (s\<lparr> last_pts := 0 \<rparr>) = Inr s'"
        unfolding pkt_scan_payload_eof [OF eof] by simp
      from frame_add_log [OF this] l show ?thesis by simp
    qed
  next
    case mid
    from r have "frame_add INTER_PACKET (drop 12 u) s = Inr s'"
      unfolding pkt_scan_payload_mid [OF mid] .
    from frame_add_log [OF this] l show ?thesis by simp
  qed
  then show "discarding s'" "frame_queue s' = frame_queue s"
    "cur_frame_start s' = cur_frame_start s" "enqueue_calls s' = enqueue_calls s"
    by simp_all
next
  fix s' assume a: "discarding s \<and> pkt_scan data s = Inr s'
            \<and> FIRST_PACKET \<notin> set (drop (length (fa_log s)) (fa_log s'))"
  then have "frame_queue s' = frame_queue s \<and> cur_frame_start s' = cur_frame_start s
         \<and> enqueue_calls s' = enqueue_calls s \<and> discarding s'"
    by (intro pkt_scan_while_discarding [of s data s']) simp_all
  then show "frame_queue s' = frame_queue s" "cur_frame_start s' = cur_frame_start s"
    "enqueue_calls s' = enqueue_calls s" "discarding s'"
    by simp_all
next
  assume "urb_inv s"
  from pkt_scan_safe [OF this, of data] show "\<exists>s'. pkt_scan data s = Inr s'" by blast
qed

theorem discard_suppresses_writes_witness:
  "\<not> header_ok unit_bad
   \<and> (\<exists>s'. pkt_scan_payload unit_bad mid_state = Inr s'
        \<and> fa_log s' = fa_log mid_state @ [DISCARD_PACKET]
        \<and> frame_queue s' = frame_queue mid_state
        \<and> enqueue_calls s' = enqueue_calls mid_state \<and> discarding s')
   \<and> discarding fresh4 \<and> urb_inv fresh4
   \<and> (\<exists>s'. pkt_scan unit_idle fresh4 = Inr s'
        \<and> FIRST_PACKET \<notin> set (drop (length (fa_log fresh4)) (fa_log s'))
        \<and> fa_log s' = [INTER_PACKET]
        \<and> frame_queue s' = frame_queue fresh4
        \<and> enqueue_calls s' = enqueue_calls fresh4 \<and> discarding s')"
proof -
  have a: "\<not> header_ok unit_bad" by (rule units_ok)
  from discard_suppresses_writes [of unit_bad mid_state "[]"] a
  have b: "\<exists>s'. pkt_scan_payload unit_bad mid_state = Inr s'
        \<and> fa_log s' = fa_log mid_state @ [DISCARD_PACKET]
        \<and> frame_queue s' = frame_queue mid_state
        \<and> enqueue_calls s' = enqueue_calls mid_state \<and> discarding s'"
    by blast
  have c: "discarding fresh4" by (simp add: discarding_def fresh4_eq)
  have d: "urb_inv fresh4" by (rule urb_inv_fresh4)
  let ?s' = "fresh4\<lparr> fa_log := [INTER_PACKET] \<rparr>"
  have e: "pkt_scan unit_idle fresh4 = Inr ?s'" by (rule idle_eval)
  have f: "FIRST_PACKET \<notin> set (drop (length (fa_log fresh4)) (fa_log ?s'))"
    by (simp add: fresh4_eq)
  from discard_suppresses_writes [of "[]" fresh4 unit_idle] c e f
  have "frame_queue ?s' = frame_queue fresh4 \<and> cur_frame_start ?s' = cur_frame_start fresh4
         \<and> enqueue_calls ?s' = enqueue_calls fresh4 \<and> discarding ?s'"
    by blast
  with e f have g: "\<exists>s'. pkt_scan unit_idle fresh4 = Inr s'
        \<and> FIRST_PACKET \<notin> set (drop (length (fa_log fresh4)) (fa_log s'))
        \<and> fa_log s' = [INTER_PACKET]
        \<and> frame_queue s' = frame_queue fresh4
        \<and> enqueue_calls s' = enqueue_calls fresh4 \<and> discarding s'"
    by (intro exI [of _ ?s']) simp
  from a b c d g show ?thesis by blast
qed

text \<open>
  C10: A payload with the end-of-frame bit set and the stored timestamp and toggle makes
  \<^verbatim>\<open>pkt_scan\<close> store the timestamp 0, before the size check and whatever its outcome;
  on a size mismatch the payload is classified discard and nothing is enqueued. The
  payload that follows, with a good header and any timestamp other than 0, is then
  classified first and only first, and its timestamp is stored, whether or not it equals
  the timestamp of the frame just ended; if it fits a frame, the new frame begins with
  its bytes 12 onward.
\<close>

theorem eof_unit_resets_last_pts:
  assumes inv: "urb_inv s"
    and hdr1: "header_ok u1" and len1: "length u1 \<le> 2048"
    and eof: "u1 ! 1 AND UVC_STREAM_EOF \<noteq> 0"
    and pts: "this_pts u1 = last_pts s" and fid: "this_fid u1 = last_fid s"
    and hdr2: "header_ok u2" and len2: "length u2 \<le> 2048"
    and nz: "this_pts u2 \<noteq> 0"
  shows "\<exists>s1 s2. pkt_scan u1 s = Inr s1 \<and> last_pts s1 = 0
     \<and> (cur_frame_data_len s + of_nat (length u1) - 12 \<noteq> frame_size s \<longrightarrow>
          fa_log s1 = fa_log s @ [DISCARD_PACKET] \<and> enqueue_calls s1 = enqueue_calls s)
     \<and> pkt_scan u2 s1 = Inr s2
     \<and> fa_log s2 = fa_log s1 @ [FIRST_PACKET]
     \<and> last_pts s2 = this_pts u2 \<and> last_fid s2 = this_fid u2
     \<and> (length u2 - 12 \<le> unat (frame_size s) \<longrightarrow>
          last_packet_type s2 = FIRST_PACKET
          \<and> unat (cur_frame_data_len s2) = length u2 - 12
          \<and> take (length u2 - 12) (drop (cur_frame_start s2) (frame_buffer (frame_queue s2)))
              = drop 12 u2)"
proof -
  let ?s0 = "s\<lparr> last_pts := 0 \<rparr>"
  have i0: "urb_inv ?s0" by (rule urb_inv_cong [OF inv]) simp_all
  note run1 = pkt_scan_single [OF len1] pkt_scan_payload_eof [OF hdr1 pts fid eof]
  have "\<exists>s1. pkt_scan u1 s = Inr s1 \<and> urb_inv s1 \<and> last_pts s1 = 0
      \<and> frame_size s1 = frame_size s \<and> last_packet_type s1 \<noteq> INTER_PACKET
      \<and> (cur_frame_data_len s + of_nat (length u1) - 12 \<noteq> frame_size s \<longrightarrow>
          fa_log s1 = fa_log s @ [DISCARD_PACKET] \<and> enqueue_calls s1 = enqueue_calls s)"
  proof (cases "cur_frame_data_len s + of_nat (length u1) - 12 \<noteq> frame_size s")
    case True
    have e: "length ([] :: u8 list) \<le> 2048" by simp
    from frame_add_safe [OF i0 e, of DISCARD_PACKET] frame_add_DISCARD [of ?s0] True
    show ?thesis unfolding run1 by auto
  next
    case False
    have d: "length (drop 12 u1) \<le> 2048" using len1 by simp
    from frame_add_safe [OF i0 d, of LAST_PACKET] False
    show ?thesis unfolding run1 by auto
  qed
  then obtain s1 where s1: "pkt_scan u1 s = Inr s1" "urb_inv s1" "last_pts s1 = 0"
      "frame_size s1 = frame_size s" "last_packet_type s1 \<noteq> INTER_PACKET"
      "cur_frame_data_len s + of_nat (length u1) - 12 \<noteq> frame_size s \<longrightarrow>
          fa_log s1 = fa_log s @ [DISCARD_PACKET] \<and> enqueue_calls s1 = enqueue_calls s"
    by blast
  let ?s1 = "s1\<lparr> last_pts := this_pts u2, last_fid := this_fid u2 \<rparr>"
  have i1: "urb_inv ?s1" by (rule urb_inv_cong [OF s1(2)]) simp_all
  have new: "this_pts u2 \<noteq> last_pts s1 \<or> this_fid u2 \<noteq> last_fid s1"
    using nz s1(3) by simp
  have run2: "pkt_scan u2 s1 = frame_add FIRST_PACKET (drop 12 u2) ?s1"
    unfolding pkt_scan_single [OF len2] pkt_scan_payload_new [OF hdr2 new]
    using s1(5) by simp
  have d2: "length (drop 12 u2) \<le> 2048" using len2 by simp
  from frame_add_safe [OF i1 d2, of FIRST_PACKET] obtain s2
    where s2: "frame_add FIRST_PACKET (drop 12 u2) ?s1 = Inr s2"
      "fa_log s2 = fa_log ?s1 @ [FIRST_PACKET]" "last_pts s2 = last_pts ?s1"
      "last_fid s2 = last_fid ?s1"
    by blast
  have fits: "last_packet_type s2 = FIRST_PACKET
          \<and> unat (cur_frame_data_len s2) = length u2 - 12
          \<and> take (length u2 - 12) (drop (cur_frame_start s2) (frame_buffer (frame_queue s2)))
              = drop 12 u2"
    if fit: "length u2 - 12 \<le> unat (frame_size s)"
  proof -
    have f: "length (drop 12 u2) \<le> unat (frame_size ?s1)" using fit s1(4) by simp
    from frame_add_FIRST_fits [OF i1 f] s2(1)
    have a: "last_packet_type s2 = FIRST_PACKET"
      and b: "unat (cur_frame_data_len s2) = length (drop 12 u2)"
      and c: "frame_buffer (frame_queue s2) =
          take (cur_frame_start ?s1) (frame_buffer (frame_queue ?s1)) @ drop 12 u2
          @ drop (cur_frame_start ?s1 + length (drop 12 u2)) (frame_buffer (frame_queue ?s1))"
      and e: "cur_frame_start s2 = cur_frame_start ?s1"
      by auto
    have inb: "cur_frame_start ?s1 + 0 + length (drop 12 u2)
        \<le> length (frame_buffer (frame_queue ?s1))"
      using urb_inv_bounds(2) [OF i1] f by simp
    from written_frame [OF inb] a b show ?thesis unfolding c e by simp
  qed
  from s1 s2 run2 fits show ?thesis by auto
qed

theorem eof_unit_resets_last_pts_witness:
  "urb_inv mid_state \<and> header_ok unit_last_short \<and> length unit_last_short \<le> 2048
   \<and> unit_last_short ! 1 AND UVC_STREAM_EOF \<noteq> 0
   \<and> this_pts unit_last_short = last_pts mid_state
   \<and> this_fid unit_last_short = last_fid mid_state
   \<and> header_ok unit_first \<and> length unit_first \<le> 2048 \<and> this_pts unit_first \<noteq> 0
   \<and> this_pts unit_first = last_pts mid_state
   \<and> cur_frame_data_len mid_state + of_nat (length unit_last_short) - 12 \<noteq> frame_size mid_state
   \<and> length unit_first - 12 \<le> unat (frame_size mid_state)
   \<and> (\<exists>s1 s2. pkt_scan unit_last_short mid_state = Inr s1 \<and> last_pts s1 = 0
        \<and> fa_log s1 = [FIRST_PACKET, INTER_PACKET, DISCARD_PACKET]
        \<and> pkt_scan unit_first s1 = Inr s2
        \<and> fa_log s2 = [FIRST_PACKET, INTER_PACKET, DISCARD_PACKET, FIRST_PACKET]
        \<and> last_pts s2 = 100
        \<and> last_packet_type s2 = FIRST_PACKET)"
proof -
  have a: "urb_inv mid_state" by (rule urb_inv_mid_state)
  have b12: "header_ok unit_last_short" "length unit_last_short \<le> 2048"
    by (simp_all add: units_ok units_len)
  have b3: "unit_last_short ! 1 AND UVC_STREAM_EOF \<noteq> 0" by (rule units_eof)
  have b45: "this_pts unit_last_short = last_pts mid_state"
    "this_fid unit_last_short = last_fid mid_state"
    by (simp_all add: units_pts units_fid mid_state_def)
  note b = b12 b3 b45
  have c: "header_ok unit_first" "length unit_first \<le> 2048" "this_pts unit_first \<noteq> 0"
    by (simp_all add: units_ok units_len units_pts)
  have d: "this_pts unit_first = last_pts mid_state"
    "cur_frame_data_len mid_state + of_nat (length unit_last_short) - 12 \<noteq> frame_size mid_state"
    "length unit_first - 12 \<le> unat (frame_size mid_state)"
    by (simp_all add: units_pts units_len mid_state_def)
  from eof_unit_resets_last_pts [OF a b c] d(2,3)
  have "\<exists>s1 s2. pkt_scan unit_last_short mid_state = Inr s1 \<and> last_pts s1 = 0
        \<and> fa_log s1 = [FIRST_PACKET, INTER_PACKET, DISCARD_PACKET]
        \<and> pkt_scan unit_first s1 = Inr s2
        \<and> fa_log s2 = [FIRST_PACKET, INTER_PACKET, DISCARD_PACKET, FIRST_PACKET]
        \<and> last_pts s2 = 100
        \<and> last_packet_type s2 = FIRST_PACKET"
    unfolding units_pts by (auto simp: mid_state_def)
  with a b c d show ?thesis by blast
qed

section \<open>The allocation made by the constructor\<close>

text \<open>
  C9: The constructor keeps \<open>max d 2\<close> in \<^verbatim>\<open>num_frames\<close>, but the size it
  passes to \<^verbatim>\<open>malloc\<close> is the frame size times the depth \<open>d\<close> as requested.
  For a frame of 614400 bytes and a requested depth of 1 the allocation is one slot of
  614400 bytes while the queue works with two: the first \<^verbatim>\<open>Enqueue\<close> returns the
  offset 614400, the end of the allocation, and a write of even one byte there is out of
  bounds. For a requested depth of 0 nothing is allocated. With frames of 4 bytes, the
  first payload faults at depth 0, and at depth 1 the first payload of the second frame
  does.
\<close>

theorem FrameQueue_new_allocation:
  "length (frame_buffer (FrameQueue_new fs d junk)) = unat (fs * d)
   \<and> num_frames (FrameQueue_new fs d junk) = max d 2
   \<and> length (frame_buffer (FrameQueue_new 614400 1 junk)) = 614400
   \<and> num_frames (FrameQueue_new 614400 1 junk) = 2
   \<and> fst (Enqueue (FrameQueue_new 614400 1 junk)) = 614400
   \<and> memcpy_to (frame_buffer (FrameQueue_new 614400 1 junk))
        (fst (Enqueue (FrameQueue_new 614400 1 junk))) [b] = Inl OutOfBounds
   \<and> length (frame_buffer (FrameQueue_new 614400 0 junk)) = 0
   \<and> pkt_scan unit_first (start_transfers DISCARD_PACKET 4 0 zero_mem) = Inl OutOfBounds
   \<and> transfers [unit_first, unit_mid, unit_last, unit_next]
        (start_transfers DISCARD_PACKET 4 1 zero_mem) = Inl OutOfBounds"
proof -
  have "length (frame_buffer (FrameQueue_new fs d junk)) = unat (fs * d)
   \<and> num_frames (FrameQueue_new fs d junk) = max d 2
   \<and> length (frame_buffer (FrameQueue_new 614400 1 junk)) = 614400
   \<and> num_frames (FrameQueue_new 614400 1 junk) = 2
   \<and> fst (Enqueue (FrameQueue_new 614400 1 junk)) = 614400
   \<and> memcpy_to (frame_buffer (FrameQueue_new 614400 1 junk))
        (fst (Enqueue (FrameQueue_new 614400 1 junk))) [b] = Inl OutOfBounds
   \<and> length (frame_buffer (FrameQueue_new 614400 0 junk)) = 0"
    by (simp add: FrameQueue_new_def Enqueue_def memcpy_to_def word_le_nat_alt)
  with depth0_eval depth1_fault show ?thesis by blast
qed

end
